theory Spec2Isabelle
  imports Complex_Main "HOL-Library.AList"
begin

section \<open>Data model\<close>

text \<open>
  The development embeds \<^verbatim>\<open>neuron_explainer/api_client.py\<close>: the error classifier
  \<^verbatim>\<open>is_api_error\<close>, the retry decorator \<^verbatim>\<open>exponential_backoff\<close> and the method
  \<^verbatim>\<open>ApiClient.make_request\<close>.

  JSON values as Python holds them after parsing (and as the caller passes them in keyword
  arguments): \<^verbatim>\<open>None\<close>, booleans, integers, strings, lists and dictionaries. A dictionary
  is an association list in insertion order, its keys distinct. A string is the list of
  the bytes of its UTF-8 encoding. Floating-point numbers are outside the embedding.
\<close>

datatype json =
    JNull
  | JBool bool
  | JInt int
  | JStr string
  | JArr "json list"
  | JObj "(string \<times> json) list"

text \<open>
  An \<^verbatim>\<open>httpx.Response\<close>, reduced to what the program reads: the status code and the result
  of \<^verbatim>\<open>response.json()\<close>, which is \<open>None\<close> when the body is not valid JSON (the call
  raises then).
\<close>

record response =
  status_code :: int
  json_body :: "json option"

text \<open>
  The exceptions the program meets. \<open>HTTPStatusError\<close> carries its response, as
  \<^verbatim>\<open>err.response\<close>; \<open>Unexpected\<close> stands for every exception class the classifier does
  not name, told apart by a tag.
\<close>

datatype exn =
    HTTPStatusError response
  | ConnectError
  | TimeoutException
  | ReadError
  | JSONDecodeError
  | AttributeError
  | JSONEncodeError
  | Unexpected string

text \<open>What awaiting a coroutine gives: a value, an exception, or no answer at all.\<close>

datatype 'a outcome = Returned 'a | Raised exn | Suspended

text \<open>One HTTP request as \<^verbatim>\<open>http_client.post\<close> receives it.\<close>

record request =
  url :: string
  headers :: "(string \<times> string) list"
  body :: "(string \<times> json) list"
  timeout :: "int option"

text \<open>
  The observable actions of one logical call, in the order they happen: the retry loop
  awaiting the wrapped function, a backoff sleep, a cache lookup, taking and giving back a
  slot of the semaphore, and the POST.
\<close>

datatype event =
    Call
  | Sleep real
  | Lookup string
  | Acquire
  | Post request
  | Release

datatype post_result = Responded response | Failed exn

text \<open>
  The state a call runs in. \<open>events\<close> is the log of actions so far. \<open>uniform01\<close> is the
  sequence of numbers \<^verbatim>\<open>random.random()\<close> will give and \<open>draws\<close> how many were taken;
  \<open>remote\<close> is what the network will answer to each POST and \<open>posts\<close> how many were made.
  \<open>concurrency_check\<close> is \<^verbatim>\<open>self._concurrency_check\<close>: \<open>None\<close> without a limit, else the
  number of free slots of the semaphore. \<open>cache\<close> is \<^verbatim>\<open>self._cache\<close>.
  \<open>openai_api_key\<close> is the environment variable \<^verbatim>\<open>OPENAI_API_KEY\<close>.
\<close>

record world =
  events :: "event list"
  uniform01 :: "nat \<Rightarrow> real"
  draws :: nat
  remote :: "nat \<Rightarrow> post_result"
  posts :: nat
  concurrency_check :: "nat option"
  cache :: "(string \<rightharpoonup> json) option"
  openai_api_key :: "string option"

text \<open>The fields of an \<^verbatim>\<open>ApiClient\<close> that never change after construction.\<close>

record client =
  model_name :: string
  base_api_url :: string
  override_api_key :: "string option"

section \<open>The error classifier\<close>

text \<open>\<^verbatim>\<open>response.json()\<close>: the parsed body, or the decoder's exception.\<close>

definition response_json :: "response \<Rightarrow> exn + json" where
  "response_json r = (case json_body r of None \<Rightarrow> Inl JSONDecodeError | Some v \<Rightarrow> Inr v)"

text \<open>
  \<^verbatim>\<open>d.get(k, default)\<close>. Only a dictionary has the method: on a list, a string, a number or
  \<^verbatim>\<open>None\<close> the attribute lookup raises.
\<close>

fun dict_get :: "json \<Rightarrow> string \<Rightarrow> json \<Rightarrow> exn + json" where
  "dict_get (JObj kvs) k dflt = Inr (case map_of kvs k of None \<Rightarrow> dflt | Some v \<Rightarrow> v)"
| "dict_get _ k dflt = Inl AttributeError"

text \<open>
  \<^verbatim>\<open>is_api_error\<close>, lines 14 to 46. The printing is left out. \<open>Inr\<close> is the verdict
  returned, \<open>Inl\<close> an exception raised by the classifier itself.
\<close>

fun is_api_error :: "exn \<Rightarrow> exn + bool" where
  "is_api_error (HTTPStatusError r) =
     (case response_json r of
        Inl e \<Rightarrow> Inl e
      | Inr parsed \<Rightarrow>
     (case dict_get parsed ''error'' (JObj []) of
        Inl e \<Rightarrow> Inl e
      | Inr error_data \<Rightarrow>
     (case dict_get error_data ''message'' JNull of
        Inl e \<Rightarrow> Inl e
      | Inr error_message \<Rightarrow>
          if status_code r \<in> set [400, 404, 415] then
            (case dict_get error_data ''type'' JNull of
               Inl e \<Rightarrow> Inl e
             | Inr ty \<Rightarrow> if ty = JStr ''idempotency_error'' then Inr True else Inr False)
          else Inr True)))"
| "is_api_error ConnectError = Inr True"
| "is_api_error TimeoutException = Inr True"
| "is_api_error ReadError = Inr True"
| "is_api_error _ = Inr True"

section \<open>The retry decorator\<close>

definition init_delay_s :: real where "init_delay_s = 1"
definition max_delay_s :: real where "max_delay_s = 10"
definition max_tries :: nat where "max_tries = 200"
definition backoff_multiplier :: real where "backoff_multiplier = 2"
definition jitter :: real where "jitter = 2 / 10"

text \<open>
  \<^verbatim>\<open>random.uniform(a, b)\<close> is \<^verbatim>\<open>a + (b - a) * random()\<close>; the draw is the next number of
  the world's sequence. Floating-point arithmetic is idealised to the reals.
\<close>

definition random_uniform :: "real \<Rightarrow> real \<Rightarrow> world \<Rightarrow> real \<times> world" where
  "random_uniform a b w = (a + (b - a) * uniform01 w (draws w), w\<lparr>draws := Suc (draws w)\<rparr>)"

definition asyncio_sleep :: "real \<Rightarrow> world \<Rightarrow> world" where
  "asyncio_sleep d w = w\<lparr>events := events w @ [Sleep d]\<rparr>"

text \<open>
  The body of \<^verbatim>\<open>f_retry\<close>, lines 68 to 80. The first numeric argument counts the
  iterations of \<^verbatim>\<open>for i in range(max_tries)\<close> still to run, so that \<open>Suc n\<close> is iteration
  \<open>i = max_tries - Suc n\<close> and the test \<^verbatim>\<open>i == max_tries - 1\<close> is \<open>n = 0\<close>. A loop that runs
  out falls off the end of the function, which returns \<^verbatim>\<open>None\<close>.
\<close>

fun retry_loop ::
  "(world \<Rightarrow> 'a outcome \<times> world) \<Rightarrow> (exn \<Rightarrow> exn + bool) \<Rightarrow> nat \<Rightarrow> real \<Rightarrow> world
     \<Rightarrow> 'a option outcome \<times> world" where
  "retry_loop f retry_on 0 delay_s w = (Returned None, w)"
| "retry_loop f retry_on (Suc n) delay_s w =
     (case f (w\<lparr>events := events w @ [Call]\<rparr>) of
        (Returned v, w1) \<Rightarrow> (Returned (Some v), w1)
      | (Suspended, w1) \<Rightarrow> (Suspended, w1)
      | (Raised err, w1) \<Rightarrow>
          (case retry_on err of
             Inl err2 \<Rightarrow> (Raised err2, w1)
           | Inr retry \<Rightarrow>
               if \<not> retry \<or> n = 0 then (Raised err, w1)
               else
                 (case random_uniform (delay_s * (1 - jitter)) (delay_s * (1 + jitter)) w1 of
                    (jittered_delay, w2) \<Rightarrow>
                      retry_loop f retry_on n
                        (min (delay_s * backoff_multiplier) max_delay_s)
                        (asyncio_sleep jittered_delay w2))))"

definition f_retry ::
  "(world \<Rightarrow> 'a outcome \<times> world) \<Rightarrow> (exn \<Rightarrow> exn + bool) \<Rightarrow> world \<Rightarrow> 'a option outcome \<times> world" where
  "f_retry f retry_on w = retry_loop f retry_on max_tries init_delay_s w"

section \<open>The cache key\<close>

text \<open>
  \<^verbatim>\<open>orjson.dumps\<close> with its default options, as the library documents it: compact output
  with no white space, the members of a dictionary in insertion order (keys are sorted only
  under \<^verbatim>\<open>OPT_SORT_KEYS\<close>, which the program does not pass), strings as UTF-8 with
  the quotation mark, the backslash and the control characters escaped, and an exception
  for an integer outside the 64-bit range. The library's limit on nesting depth is not
  modelled.
\<close>

definition hex_digit :: "nat \<Rightarrow> char" where
  "hex_digit n = ''0123456789abcdef'' ! n"

definition escape_char :: "char \<Rightarrow> string" where
  "escape_char c =
     (if c = CHR 0x22 then [CHR 0x5C, CHR 0x22]
      else if c = CHR 0x5C then [CHR 0x5C, CHR 0x5C]
      else if c = CHR 0x08 then [CHR 0x5C, CHR ''b'']
      else if c = CHR 0x0C then [CHR 0x5C, CHR ''f'']
      else if c = CHR 0x0A then [CHR 0x5C, CHR ''n'']
      else if c = CHR 0x0D then [CHR 0x5C, CHR ''r'']
      else if c = CHR 0x09 then [CHR 0x5C, CHR ''t'']
      else if (of_char c :: nat) < 32 then
        [CHR 0x5C, CHR ''u'', CHR ''0'', CHR ''0'',
         hex_digit (of_char c div 16), hex_digit (of_char c mod 16)]
      else [c])"

definition render_str :: "string \<Rightarrow> string" where
  "render_str s = [CHR 0x22] @ concat (map escape_char s) @ [CHR 0x22]"

definition digit_char :: "nat \<Rightarrow> char" where
  "digit_char n = ''0123456789'' ! n"

fun render_nat :: "nat \<Rightarrow> string" where
  "render_nat n =
     (if n < 10 then [digit_char n]
      else render_nat (n div 10) @ [digit_char (n mod 10)])"

declare render_nat.simps [simp del]

definition render_int :: "int \<Rightarrow> string" where
  "render_int i = (if i < 0 then CHR ''-'' # render_nat (nat (- i)) else render_nat (nat i))"

fun render :: "json \<Rightarrow> string"
  and render_elems :: "json list \<Rightarrow> string"
  and render_members :: "(string \<times> json) list \<Rightarrow> string" where
  "render JNull = ''null''"
| "render (JBool b) = (if b then ''true'' else ''false'')"
| "render (JInt i) = render_int i"
| "render (JStr s) = render_str s"
| "render (JArr vs) = ''['' @ render_elems vs @ '']''"
| "render (JObj kvs) = ''{'' @ render_members kvs @ ''}''"
| "render_elems [] = []"
| "render_elems (v # vs) = render v @ (if vs = [] then [] else '','' @ render_elems vs)"
| "render_members [] = []"
| "render_members ((k, v) # kvs) =
     render_str k @ '':'' @ render v @ (if kvs = [] then [] else '','' @ render_members kvs)"

fun encodable :: "json \<Rightarrow> bool"
  and encodable_elems :: "json list \<Rightarrow> bool"
  and encodable_members :: "(string \<times> json) list \<Rightarrow> bool" where
  "encodable (JInt i) = (- (2 ^ 63) \<le> i \<and> i < 2 ^ 64)"
| "encodable (JArr vs) = encodable_elems vs"
| "encodable (JObj kvs) = encodable_members kvs"
| "encodable _ = True"
| "encodable_elems [] = True"
| "encodable_elems (v # vs) = (encodable v \<and> encodable_elems vs)"
| "encodable_members [] = True"
| "encodable_members ((k, v) # kvs) = (encodable v \<and> encodable_members kvs)"

definition orjson_dumps :: "json \<Rightarrow> exn + string" where
  "orjson_dumps v = (if encodable v then Inr (render v) else Inl JSONEncodeError)"

section \<open>The client\<close>

text \<open>
  Entering and leaving \<^verbatim>\<open>self._concurrency_check\<close> in the \<^verbatim>\<open>AsyncExitStack\<close>. The
  embedding runs one logical call and no other task, so a semaphore with no free slot is
  awaited for ever.
\<close>

definition acquire :: "world \<Rightarrow> world outcome" where
  "acquire w =
     (case concurrency_check w of
        None \<Rightarrow> Returned w
      | Some 0 \<Rightarrow> Suspended
      | Some (Suc n) \<Rightarrow>
          Returned (w\<lparr>events := events w @ [Acquire], concurrency_check := Some n\<rparr>))"

definition release :: "world \<Rightarrow> world" where
  "release w =
     (case concurrency_check w of
        None \<Rightarrow> w
      | Some n \<Rightarrow> w\<lparr>events := events w @ [Release], concurrency_check := Some (Suc n)\<rparr>)"

text \<open>Lines 122 to 125. An unset environment variable is formatted as \<^verbatim>\<open>None\<close>.\<close>

definition api_http_headers :: "client \<Rightarrow> world \<Rightarrow> (string \<times> string) list" where
  "api_http_headers self w =
     [(''Content-Type'', ''application/json''),
      (''Authorization'',
         ''Bearer '' @
         (case override_api_key self of
            None \<Rightarrow> (case openai_api_key w of None \<Rightarrow> ''None'' | Some k \<Rightarrow> k)
          | Some k \<Rightarrow> k))]"

text \<open>
  Lines 138 to 146: the request of one attempt. Assigning to a key of a Python dictionary
  replaces the value where the key stands, or appends the key at the end, as
  \<open>AList.update\<close> does.
\<close>

definition build_request ::
  "client \<Rightarrow> int option \<Rightarrow> bool \<Rightarrow> (string \<times> json) list \<Rightarrow> world \<Rightarrow> request" where
  "build_request self timeout_seconds json_mode kwargs w =
     (let url = base_api_url self @
                  (if ''messages'' \<in> fst ` set kwargs then ''/chat/completions''
                   else ''/completions'');
          kwargs1 = AList.update ''model'' (JStr (model_name self)) kwargs;
          kwargs2 = (if json_mode
                     then AList.update ''response_format''
                            (JObj [(''type'', JStr ''json_object'')]) kwargs1
                     else kwargs1)
      in \<lparr>url = url, headers = api_http_headers self w, body = kwargs2,
          timeout = timeout_seconds\<rparr>)"

text \<open>\<^verbatim>\<open>http_client.post\<close>: the POST is logged and the network gives its next answer.\<close>

definition http_post :: "request \<Rightarrow> world \<Rightarrow> post_result \<times> world" where
  "http_post req w =
     (remote w (posts w), w\<lparr>events := events w @ [Post req], posts := Suc (posts w)\<rparr>)"

text \<open>
  Lines 130 to 146, the \<^verbatim>\<open>async with\<close> block: the slot is taken, the request is sent,
  and the exit stack gives the slot back when the block is left, whether the POST
  returned or raised. The result is what the POST gave and the world after the block.
\<close>

definition async_with_block ::
  "client \<Rightarrow> int option \<Rightarrow> bool \<Rightarrow> (string \<times> json) list \<Rightarrow> world
     \<Rightarrow> (post_result \<times> world) outcome" where
  "async_with_block self timeout_seconds json_mode kwargs w =
     (case acquire w of
        Suspended \<Rightarrow> Suspended
      | Raised e \<Rightarrow> Raised e
      | Returned w1 \<Rightarrow>
          (case http_post (build_request self timeout_seconds json_mode kwargs w1) w1 of
             (res, w2) \<Rightarrow> Returned (res, release w2)))"

text \<open>
  Lines 147 to 161, after the block. An exception of the POST propagates.
  \<^verbatim>\<open>raise_for_status\<close> raises for every status outside 200 to 299; the printing around
  it is left out. \<open>key\<close> is the local variable \<^verbatim>\<open>key\<close>, bound only when the client has
  a cache. The body is parsed once for the cache and once more for the result.
\<close>

definition after_block :: "string option \<Rightarrow> post_result \<Rightarrow> world \<Rightarrow> json outcome \<times> world" where
  "after_block key res w =
     (case res of
        Failed e \<Rightarrow> (Raised e, w)
      | Responded resp \<Rightarrow>
          if \<not> (200 \<le> status_code resp \<and> status_code resp < 300)
          then (Raised (HTTPStatusError resp), w)
          else
            (case cache w of
               None \<Rightarrow>
                 (case response_json resp of
                    Inl e \<Rightarrow> (Raised e, w)
                  | Inr v \<Rightarrow> (Returned v, w))
             | Some c \<Rightarrow>
                 (case key of
                    None \<Rightarrow> (Raised (Unexpected ''UnboundLocalError''), w)
                  | Some k \<Rightarrow>
                      (case response_json resp of
                         Inl e \<Rightarrow> (Raised e, w)
                       | Inr v \<Rightarrow>
                           (case response_json resp of
                              Inl e \<Rightarrow> (Raised e, w\<lparr>cache := Some (c(k \<mapsto> v))\<rparr>)
                            | Inr v' \<Rightarrow> (Returned v', w\<lparr>cache := Some (c(k \<mapsto> v))\<rparr>))))))"

text \<open>Lines 130 to 161, the function from the \<^verbatim>\<open>async with\<close> on.\<close>

definition dispatch ::
  "client \<Rightarrow> int option \<Rightarrow> bool \<Rightarrow> (string \<times> json) list \<Rightarrow> string option \<Rightarrow> world
     \<Rightarrow> json outcome \<times> world" where
  "dispatch self timeout_seconds json_mode kwargs key w =
     (case async_with_block self timeout_seconds json_mode kwargs w of
        Suspended \<Rightarrow> (Suspended, w)
      | Raised e \<Rightarrow> (Raised e, w)
      | Returned (res, w3) \<Rightarrow> after_block key res w3)"

text \<open>
  The function \<^verbatim>\<open>make_request\<close> as written, lines 116 to 161, before the decorator is
  applied: one attempt. Each attempt gets its own dictionary \<^verbatim>\<open>kwargs\<close>, so the key is
  computed from the fields the caller passed.
\<close>

definition make_request_attempt ::
  "client \<Rightarrow> int option \<Rightarrow> bool \<Rightarrow> (string \<times> json) list \<Rightarrow> world \<Rightarrow> json outcome \<times> world" where
  "make_request_attempt self timeout_seconds json_mode kwargs w =
     (case cache w of
        None \<Rightarrow> dispatch self timeout_seconds json_mode kwargs None w
      | Some c \<Rightarrow>
          (case orjson_dumps (JObj kwargs) of
             Inl e \<Rightarrow> (Raised e, w)
           | Inr key \<Rightarrow>
               (let w1 = w\<lparr>events := events w @ [Lookup key]\<rparr> in
                case c key of
                  Some v \<Rightarrow> (Returned v, w1)
                | None \<Rightarrow> dispatch self timeout_seconds json_mode kwargs (Some key) w1)))"

text \<open>
  The method \<^verbatim>\<open>ApiClient.make_request\<close> that callers see: line 115 wraps the function
  in the retry loop with \<^verbatim>\<open>is_api_error\<close> as classifier.
\<close>

definition make_request ::
  "client \<Rightarrow> int option \<Rightarrow> bool \<Rightarrow> (string \<times> json) list \<Rightarrow> world
     \<Rightarrow> json option outcome \<times> world" where
  "make_request self timeout_seconds json_mode kwargs w =
     f_retry (make_request_attempt self timeout_seconds json_mode kwargs) is_api_error w"

section \<open>Observations on the log\<close>

text \<open>How often the retry loop awaited the wrapped function, and the sleeps it took.\<close>

fun calls_of :: "event list \<Rightarrow> nat" where
  "calls_of [] = 0"
| "calls_of (Call # es) = Suc (calls_of es)"
| "calls_of (_ # es) = calls_of es"

fun sleeps_of :: "event list \<Rightarrow> real list" where
  "sleeps_of [] = []"
| "sleeps_of (Sleep d # es) = d # sleeps_of es"
| "sleeps_of (_ # es) = sleeps_of es"

text \<open>
  The value \<^verbatim>\<open>random.uniform(delay_s * (1 - jitter), delay_s * (1 + jitter))\<close> for the
  draw \<open>u\<close>, the delay after \<open>k\<close> updates by line 80, and the sleeps of \<open>n\<close> failed
  attempts in a row.
\<close>

definition jittered :: "real \<Rightarrow> real \<Rightarrow> real" where
  "jittered d u = d * (1 - jitter) + (d * (1 + jitter) - d * (1 - jitter)) * u"

fun delay_after :: "nat \<Rightarrow> real \<Rightarrow> real" where
  "delay_after 0 d = d"
| "delay_after (Suc k) d = delay_after k (min (d * backoff_multiplier) max_delay_s)"

fun backoff_sleeps :: "nat \<Rightarrow> real \<Rightarrow> (nat \<Rightarrow> real) \<Rightarrow> nat \<Rightarrow> real list" where
  "backoff_sleeps 0 d u i = []"
| "backoff_sleeps (Suc n) d u i =
     jittered d (u i) # backoff_sleeps n (min (d * backoff_multiplier) max_delay_s) u (Suc i)"

text \<open>The delay the specification names for attempt \<open>k\<close>.\<close>

definition nominal_delay :: "nat \<Rightarrow> real" where
  "nominal_delay k = min (1 * 2 ^ k) 10"

text \<open>
  A persistently failing transient condition: \<open>P\<close> holds of the worlds in which the next
  attempt raises an exception that the classifier accepts for a retry. The operation
  leaves the loop's own entries of the log and the random source alone, and \<open>P\<close> holds
  again after the draw and the sleep that follow.
\<close>

definition persistently_transient ::
  "(world \<Rightarrow> bool) \<Rightarrow> (world \<Rightarrow> 'a outcome \<times> world) \<Rightarrow> (exn \<Rightarrow> exn + bool) \<Rightarrow> bool" where
  "persistently_transient P f retry_on \<longleftrightarrow>
     (\<forall>w. P w \<longrightarrow>
        (\<exists>e w1. f (w\<lparr>events := events w @ [Call]\<rparr>) = (Raised e, w1) \<and>
                retry_on e = Inr True \<and>
                calls_of (events w1) = Suc (calls_of (events w)) \<and>
                sleeps_of (events w1) = sleeps_of (events w) \<and>
                draws w1 = draws w \<and> uniform01 w1 = uniform01 w \<and>
                (\<forall>d. P (asyncio_sleep d (w1\<lparr>draws := Suc (draws w1)\<rparr>)))))"

text \<open>A client without cache whose every POST fails to connect.\<close>

definition offline :: "world \<Rightarrow> bool" where
  "offline w \<longleftrightarrow>
     (\<forall>i. remote w i = Failed ConnectError) \<and> cache w = None \<and> concurrency_check w \<noteq> Some 0"

text \<open>
  The discipline of the semaphore on a log: every POST stands between the taking of a slot
  just before it and the giving back just after it, and nothing else takes or gives back
  a slot. A sleep, a call of the wrapped function and a cache lookup happen with no slot
  held.
\<close>

fun gated :: "event list \<Rightarrow> bool" where
  "gated [] = True"
| "gated (Acquire # Post r # Release # es) = gated es"
| "gated (Acquire # es) = False"
| "gated (Post r # es) = False"
| "gated (Release # es) = False"
| "gated (e # es) = gated es"

text \<open>The entries that the \<^verbatim>\<open>async with\<close> block writes for the request \<open>req\<close>.\<close>

definition gate_block :: "nat option \<Rightarrow> request \<Rightarrow> event list" where
  "gate_block g req = (case g of None \<Rightarrow> [Post req] | Some n \<Rightarrow> [Acquire, Post req, Release])"

text \<open>What an attempt never changes.\<close>

definition same_config :: "world \<Rightarrow> world \<Rightarrow> bool" where
  "same_config w w1 \<longleftrightarrow>
     openai_api_key w1 = openai_api_key w \<and> concurrency_check w1 = concurrency_check w \<and>
     draws w1 = draws w \<and> uniform01 w1 = uniform01 w \<and> remote w1 = remote w \<and>
     (cache w1 = None \<longleftrightarrow> cache w = None)"

section \<open>Reading a key back\<close>

text \<open>
  What is needed to show that two different payloads never get the same key: a decoder
  for one escaped character, the value of a string of digits, the characters that can
  follow a value inside a list or a dictionary, and the first character of each kind of
  value.
\<close>

definition hex_val :: "char \<Rightarrow> nat" where
  "hex_val c = (if (of_char c :: nat) < 58 then of_char c - 48 else of_char c - 87)"

fun unescape :: "string \<Rightarrow> (char \<times> string) option" where
  "unescape [] = None"
| "unescape (x # xs) =
     (if x = CHR 0x22 then None
      else if x \<noteq> CHR 0x5C then Some (x, xs)
      else
        (case xs of
           [] \<Rightarrow> None
         | y # ys \<Rightarrow>
             if y = CHR 0x22 then Some (CHR 0x22, ys)
             else if y = CHR 0x5C then Some (CHR 0x5C, ys)
             else if y = CHR ''b'' then Some (CHR 0x08, ys)
             else if y = CHR ''f'' then Some (CHR 0x0C, ys)
             else if y = CHR ''n'' then Some (CHR 0x0A, ys)
             else if y = CHR ''r'' then Some (CHR 0x0D, ys)
             else if y = CHR ''t'' then Some (CHR 0x09, ys)
             else if y = CHR ''u'' then
               (case ys of
                  a # b # h # l # r \<Rightarrow> Some (char_of (16 * hex_val h + hex_val l), r)
                | _ \<Rightarrow> None)
             else None))"

definition digits_val :: "string \<Rightarrow> nat" where
  "digits_val s = foldl (\<lambda>a c. 10 * a + (of_char c - 48)) 0 s"

definition delimited :: "string \<Rightarrow> bool" where
  "delimited r \<longleftrightarrow> (case r of [] \<Rightarrow> True | c # cs \<Rightarrow> c \<in> set '',]}'')"

definition plain :: "string \<Rightarrow> bool" where
  "plain s \<longleftrightarrow> (\<forall>c\<in>set s. c \<notin> set '',]}'')"

definition tag :: "char \<Rightarrow> nat" where
  "tag c =
     (if c = CHR ''n'' then 0
      else if c = CHR ''t'' \<or> c = CHR ''f'' then 1
      else if c \<in> set ''-0123456789'' then 2
      else if c = CHR 0x22 then 3
      else if c = CHR ''['' then 4
      else if c = CHR ''{'' then 5
      else 6)"

fun kind :: "json \<Rightarrow> nat" where
  "kind JNull = 0"
| "kind (JBool b) = 1"
| "kind (JInt i) = 2"
| "kind (JStr s) = 3"
| "kind (JArr vs) = 4"
| "kind (JObj kvs) = 5"

section \<open>Example inputs\<close>

text \<open>The client and the request of the module's \<^verbatim>\<open>main\<close>, against several networks.\<close>

definition demo_client :: client where
  "demo_client =
     \<lparr>model_name = ''gpt-3.5-turbo'', base_api_url = ''https://api.openai.com/v1'',
      override_api_key = None\<rparr>"

definition demo_kwargs :: "(string \<times> json) list" where
  "demo_kwargs =
     [(''prompt'', JStr ''Why did the chicken cross the road?''), (''max_tokens'', JInt 9)]"

definition offline_world :: world where
  "offline_world =
     \<lparr>events = [], uniform01 = (\<lambda>k. if k = 4 then 1 / 2 else 0), draws = 0,
      remote = (\<lambda>i. Failed ConnectError), posts = 0, concurrency_check = Some 1,
      cache = None, openai_api_key = Some ''sk-demo''\<rparr>"

definition bad_gateway :: response where
  "bad_gateway = \<lparr>status_code = 502, json_body = None\<rparr>"

definition bad_gateway_world :: world where
  "bad_gateway_world = offline_world\<lparr>remote := (\<lambda>i. Responded bad_gateway)\<rparr>"

definition bad_request :: response where
  "bad_request =
     \<lparr>status_code = 400,
      json_body = Some (JObj [(''error'',
        JObj [(''message'', JStr ''Unrecognized request argument''),
              (''type'', JStr ''invalid_request_error'')])])\<rparr>"

definition bad_request_world :: world where
  "bad_request_world = offline_world\<lparr>remote := (\<lambda>i. Responded bad_request)\<rparr>"

definition ok_body :: json where
  "ok_body = JObj [(''choices'', JArr [JObj [(''text'', JStr ''To get to the other side.'')]])]"

definition ok_response :: response where
  "ok_response = \<lparr>status_code = 200, json_body = Some ok_body\<rparr>"

definition caching_world :: world where
  "caching_world =
     offline_world\<lparr>remote := (\<lambda>i. Responded ok_response), cache := Some Map.empty\<rparr>"

definition demo_kwargs_swapped :: "(string \<times> json) list" where
  "demo_kwargs_swapped =
     [(''max_tokens'', JInt 9), (''prompt'', JStr ''Why did the chicken cross the road?'')]"

text \<open>Two payloads that differ only in a model name of the caller's own.\<close>

definition model_kwargs_a :: "(string \<times> json) list" where
  "model_kwargs_a = [(''model'', JStr ''gpt-4''), (''prompt'', JStr ''Hello'')]"

definition model_kwargs_b :: "(string \<times> json) list" where
  "model_kwargs_b = [(''model'', JStr ''davinci''), (''prompt'', JStr ''Hello'')]"

section \<open>Lemmas on the log and the backoff\<close>

lemma calls_of_append [simp]: "calls_of (xs @ ys) = calls_of xs + calls_of ys"
  by (induction xs rule: calls_of.induct) simp_all

lemma sleeps_of_append [simp]: "sleeps_of (xs @ ys) = sleeps_of xs @ sleeps_of ys"
  by (induction xs rule: sleeps_of.induct) simp_all

lemma retry_loop_transient:
  assumes pt: "persistently_transient P f retry_on"
  shows "P w \<Longrightarrow>
         \<exists>e w_last w_end.
            P w_last \<and>
            f (w_last\<lparr>events := events w_last @ [Call]\<rparr>) = (Raised e, w_end) \<and>
            retry_loop f retry_on (Suc n) d w = (Raised e, w_end) \<and>
            calls_of (events w_last) = calls_of (events w) + n \<and>
            calls_of (events w_end) = calls_of (events w) + Suc n \<and>
            sleeps_of (events w_end) =
              sleeps_of (events w) @ backoff_sleeps n d (uniform01 w) (draws w)"
proof (induction n arbitrary: d w)
  case 0
  from pt 0 obtain e w1 where
    f: "f (w\<lparr>events := events w @ [Call]\<rparr>) = (Raised e, w1)" and r: "retry_on e = Inr True"
    and c: "calls_of (events w1) = Suc (calls_of (events w))"
    and s: "sleeps_of (events w1) = sleeps_of (events w)"
    unfolding persistently_transient_def by blast
  show ?case
    apply (rule exI [of _ e], rule exI [of _ w], rule exI [of _ w1])
    using 0 f r c s by simp
next
  case (Suc m)
  from pt Suc.prems obtain e w1 where
    f: "f (w\<lparr>events := events w @ [Call]\<rparr>) = (Raised e, w1)" and r: "retry_on e = Inr True"
    and c: "calls_of (events w1) = Suc (calls_of (events w))"
    and s: "sleeps_of (events w1) = sleeps_of (events w)"
    and dr: "draws w1 = draws w" and u: "uniform01 w1 = uniform01 w"
    and nxt: "\<And>d. P (asyncio_sleep d (w1\<lparr>draws := Suc (draws w1)\<rparr>))"
    unfolding persistently_transient_def by blast
  define j where "j = jittered d (uniform01 w (draws w))"
  define w' where "w' = asyncio_sleep j (w1\<lparr>draws := Suc (draws w1)\<rparr>)"
  define d' where "d' = min (d * backoff_multiplier) max_delay_s"
  have step: "retry_loop f retry_on (Suc (Suc m)) d w = retry_loop f retry_on (Suc m) d' w'"
    using f r by (simp add: random_uniform_def j_def w'_def d'_def jittered_def dr u)
  have Pw': "P w'" unfolding w'_def by (rule nxt)
  from Suc.IH [OF Pw', of d'] obtain e2 w_last w_end where
    a: "P w_last" and b: "f (w_last\<lparr>events := events w_last @ [Call]\<rparr>) = (Raised e2, w_end)"
    and l: "retry_loop f retry_on (Suc m) d' w' = (Raised e2, w_end)"
    and c1: "calls_of (events w_last) = calls_of (events w') + m"
    and c2: "calls_of (events w_end) = calls_of (events w') + Suc m"
    and s2: "sleeps_of (events w_end) =
              sleeps_of (events w') @ backoff_sleeps m d' (uniform01 w') (draws w')"
    by blast
  have ev: "calls_of (events w') = Suc (calls_of (events w))"
    "sleeps_of (events w') = sleeps_of (events w) @ [j]"
    "uniform01 w' = uniform01 w" "draws w' = Suc (draws w)"
    by (simp_all add: w'_def asyncio_sleep_def c s u dr)
  show ?case
    apply (rule exI [of _ e2], rule exI [of _ w_last], rule exI [of _ w_end])
    using a b l c1 c2 s2 step ev by (simp add: j_def d'_def)
qed

lemma backoff_sleeps_length [simp]: "length (backoff_sleeps n d u i) = n"
  by (induction n arbitrary: d i) simp_all

lemma backoff_sleeps_nth:
  "k < n \<Longrightarrow> backoff_sleeps n d u i ! k = jittered (delay_after k d) (u (i + k))"
proof (induction n arbitrary: d i k)
  case 0
  then show ?case by simp
next
  case (Suc n)
  then show ?case by (cases k) simp_all
qed

lemma min_scale:
  fixes d p :: real
  assumes "1 \<le> p"
  shows "min (min (d * 2) 10 * p) 10 = min (d * 2 * p) 10"
proof (cases "d * 2 \<le> 10")
  case True
  then show ?thesis by (simp add: min_def)
next
  case False
  define a where "a = d * 2 * p"
  from False have big: "10 < d * 2" by simp
  then have m: "min (d * 2) 10 = 10" by simp
  have "d * 2 * 1 \<le> d * 2 * p" using assms big by (intro mult_left_mono) simp_all
  then have h: "d * 2 \<le> a" by (simp add: a_def)
  have "min (10 * p) 10 = min a 10" using assms big h by linarith
  then show ?thesis by (simp only: m a_def)
qed

lemma delay_after_closed: "d \<le> 10 \<Longrightarrow> delay_after k d = min (d * 2 ^ k) 10"
proof (induction k arbitrary: d)
  case 0
  then show ?case by simp
next
  case (Suc k)
  have "min (d * 2) 10 \<le> (10::real)" by simp
  then have "delay_after (Suc k) d = min (min (d * 2) 10 * 2 ^ k) 10"
    using Suc.IH [of "min (d * 2) 10"] by (simp add: backoff_multiplier_def max_delay_s_def)
  also have "\<dots> = min (d * 2 * 2 ^ k) 10" by (rule min_scale) simp
  finally show ?case by (simp add: mult.assoc)
qed

lemma jittered_bounds:
  assumes "0 \<le> d" "0 \<le> u" "u \<le> 1"
  shows "d * 0.8 \<le> jittered d u \<and> jittered d u \<le> d * 1.2 \<and> \<bar>jittered d u - d\<bar> \<le> 0.2 * d"
proof -
  define x where "x = d * u"
  have eq: "jittered d u = d * 0.8 + 0.4 * x"
    by (simp add: jittered_def jitter_def x_def algebra_simps)
  have a: "0 \<le> x" using assms by (simp add: x_def)
  have "d * u \<le> d * 1" using assms by (intro mult_left_mono) simp_all
  then have b: "x \<le> d" by (simp add: x_def)
  show ?thesis using a b unfolding eq by linarith
qed


lemma max_tries_Suc: "max_tries = Suc 199"
  by (simp add: max_tries_def)

lemma offline_attempt:
  assumes "offline w"
  shows "\<exists>w1. make_request_attempt self t jm kwargs (w\<lparr>events := events w @ [Call]\<rparr>)
               = (Raised ConnectError, w1) \<and>
              calls_of (events w1) = Suc (calls_of (events w)) \<and>
              sleeps_of (events w1) = sleeps_of (events w) \<and>
              draws w1 = draws w \<and> uniform01 w1 = uniform01 w \<and>
              (\<forall>d. offline (asyncio_sleep d (w1\<lparr>draws := Suc (draws w1)\<rparr>)))"
  using assms
  by (auto simp: offline_def make_request_attempt_def dispatch_def async_with_block_def after_block_def acquire_def release_def
        http_post_def asyncio_sleep_def split: option.splits nat.splits)

lemma offline_persistently_transient:
  "persistently_transient offline (make_request_attempt self t jm kwargs) is_api_error"
  unfolding persistently_transient_def
proof (intro allI impI)
  fix w assume "offline w"
  from offline_attempt [OF this, of self t jm kwargs] obtain w1 where
    "make_request_attempt self t jm kwargs (w\<lparr>events := events w @ [Call]\<rparr>) = (Raised ConnectError, w1)"
    "calls_of (events w1) = Suc (calls_of (events w))"
    "sleeps_of (events w1) = sleeps_of (events w)"
    "draws w1 = draws w" "uniform01 w1 = uniform01 w"
    "\<forall>d. offline (asyncio_sleep d (w1\<lparr>draws := Suc (draws w1)\<rparr>))"
    by blast
  then show "\<exists>e w1. make_request_attempt self t jm kwargs (w\<lparr>events := events w @ [Call]\<rparr>) = (Raised e, w1) \<and>
      is_api_error e = Inr True \<and> calls_of (events w1) = Suc (calls_of (events w)) \<and>
      sleeps_of (events w1) = sleeps_of (events w) \<and> draws w1 = draws w \<and>
      uniform01 w1 = uniform01 w \<and> (\<forall>d. offline (asyncio_sleep d (w1\<lparr>draws := Suc (draws w1)\<rparr>)))"
    by (intro exI [of _ ConnectError] exI [of _ w1]) simp
qed

lemma offline_world_offline: "offline offline_world"
  by (simp add: offline_def offline_world_def)


lemma is_api_error_table:
  assumes "json_body r = Some (JObj obj)"
    and "dict_get (JObj obj) ''error'' (JObj []) = Inr (JObj error_data)"
  shows "is_api_error (HTTPStatusError r) =
           Inr (if status_code r \<in> {400, 404, 415}
                then map_of error_data ''type'' = Some (JStr ''idempotency_error'')
                else True)"
  using assms by (auto simp: response_json_def split: option.splits)

lemma is_api_error_other: "\<forall>r. e \<noteq> HTTPStatusError r \<Longrightarrow> is_api_error e = Inr True"
  by (cases e) auto

section \<open>Lemmas on one attempt\<close>


lemma gate_block_gated [simp]: "gated (gate_block (Some m) req)"
  by (simp add: gate_block_def)


lemma retry_loop_invariant:
  assumes "I w"
    and "\<And>w out w1. I w \<Longrightarrow> f (w\<lparr>events := events w @ [Call]\<rparr>) = (out, w1) \<Longrightarrow> I w1"
    and "\<And>w d. I w \<Longrightarrow> I (asyncio_sleep d (w\<lparr>draws := Suc (draws w)\<rparr>))"
  shows "I (snd (retry_loop f retry_on n d w))"
  using assms(1)
proof (induction n arbitrary: d w)
  case 0
  then show ?case by simp
next
  case (Suc n)
  obtain out w1 where f: "f (w\<lparr>events := events w @ [Call]\<rparr>) = (out, w1)"
    by (cases "f (w\<lparr>events := events w @ [Call]\<rparr>)")
  from assms(2) [OF Suc.prems f] have I1: "I w1" .
  then have I2: "I (asyncio_sleep j (w1\<lparr>draws := Suc (draws w1)\<rparr>))" for j
    by (rule assms(3))
  show ?case
    using f I1 Suc.IH [OF I2]
    by (auto simp: random_uniform_def split: outcome.splits sum.splits)
qed

lemma build_request_key:
  "openai_api_key w' = openai_api_key w \<Longrightarrow>
   build_request self t jm kwargs w' = build_request self t jm kwargs w"
  by (simp add: build_request_def api_http_headers_def Let_def split: option.splits)

lemma build_request_update [simp]:
  "build_request self t jm kwargs (w\<lparr>events := es\<rparr>) = build_request self t jm kwargs w"
  "build_request self t jm kwargs (w\<lparr>concurrency_check := g\<rparr>) = build_request self t jm kwargs w"
  "build_request self t jm kwargs (w\<lparr>posts := n\<rparr>) = build_request self t jm kwargs w"
  "build_request self t jm kwargs (w\<lparr>draws := k\<rparr>) = build_request self t jm kwargs w"
  "build_request self t jm kwargs (w\<lparr>cache := c\<rparr>) = build_request self t jm kwargs w"
  by (rule build_request_key, simp)+

lemma block_suspended:
  "concurrency_check w = Some 0 \<Longrightarrow> async_with_block self t jm kwargs w = Suspended"
  by (simp add: async_with_block_def acquire_def)

lemma block_no_gate:
  assumes "concurrency_check w = None"
  shows "async_with_block self t jm kwargs w =
           Returned (remote w (posts w),
             w\<lparr>events := events w @ [Post (build_request self t jm kwargs w)],
               posts := Suc (posts w)\<rparr>)"
  using assms by (simp add: async_with_block_def acquire_def release_def http_post_def)

lemma block_gate:
  assumes "concurrency_check w = Some (Suc m)"
  shows "async_with_block self t jm kwargs w =
           Returned (remote w (posts w),
             w\<lparr>events := events w @ [Acquire, Post (build_request self t jm kwargs w), Release],
               posts := Suc (posts w), concurrency_check := Some (Suc m)\<rparr>)"
  using assms
  by (simp add: async_with_block_def acquire_def release_def http_post_def)

lemma after_block_effect:
  assumes "after_block key res w = (out, w1)"
  shows "events w1 = events w \<and> posts w1 = posts w \<and> same_config w w1"
  using assms
  by (auto simp: after_block_def same_config_def
        split: post_result.splits if_splits option.splits sum.splits)

lemma block_effect:
  assumes "async_with_block self t jm kwargs w = Returned (res, w3)"
  shows "events w3 = events w @ gate_block (concurrency_check w) (build_request self t jm kwargs w) \<and>
         posts w3 = Suc (posts w) \<and> same_config w w3 \<and> cache w3 = cache w \<and>
         res = remote w (posts w)"
proof (cases "concurrency_check w")
  case None
  with assms block_no_gate [OF None, of self t jm kwargs] show ?thesis
    by (auto simp: gate_block_def same_config_def)
next
  case (Some n)
  show ?thesis
  proof (cases n)
    case 0
    with Some assms block_suspended [of w self t jm kwargs] show ?thesis by simp
  next
    case (Suc m)
    with Some have g: "concurrency_check w = Some (Suc m)" by simp
    from assms block_gate [OF g, of self t jm kwargs] g show ?thesis
      by (auto simp: gate_block_def same_config_def)
  qed
qed

lemma block_not_raised: "async_with_block self t jm kwargs w \<noteq> Raised e"
  by (auto simp: async_with_block_def acquire_def split: option.splits nat.splits prod.splits)

lemma dispatch_effect:
  assumes "dispatch self t jm kwargs key w = (out, w1)"
  shows "\<exists>bs. events w1 = events w @ bs \<and>
           (bs = [] \<and> posts w1 = posts w \<or>
            bs = gate_block (concurrency_check w) (build_request self t jm kwargs w) \<and>
              posts w1 = Suc (posts w)) \<and>
           same_config w w1"
proof (cases "async_with_block self t jm kwargs w")
  case (Returned p)
  obtain res w3 where p: "p = (res, w3)" by (cases p)
  from Returned p assms have a: "after_block key res w3 = (out, w1)"
    by (simp add: dispatch_def)
  from block_effect [OF Returned [unfolded p]] after_block_effect [OF a]
  show ?thesis
    by (intro exI [of _ "gate_block (concurrency_check w) (build_request self t jm kwargs w)"])
       (simp add: same_config_def)
next
  case (Raised e)
  with block_not_raised show ?thesis by blast
next
  case Suspended
  with assms show ?thesis
    by (intro exI [of _ "[]"]) (simp add: dispatch_def same_config_def)
qed

lemma attempt_effect:
  assumes "make_request_attempt self t jm kwargs w = (out, w1)"
  shows "\<exists>ls bs. events w1 = events w @ ls @ bs \<and>
           (ls = [] \<or> (\<exists>k. ls = [Lookup k] \<and> orjson_dumps (JObj kwargs) = Inr k)) \<and>
           (bs = [] \<and> posts w1 = posts w \<or>
            bs = gate_block (concurrency_check w) (build_request self t jm kwargs w) \<and>
              posts w1 = Suc (posts w)) \<and>
           same_config w w1"
proof (cases "cache w")
  case None
  with assms have d: "dispatch self t jm kwargs None w = (out, w1)"
    by (simp add: make_request_attempt_def)
  from dispatch_effect [OF d] obtain bs where
    "events w1 = events w @ bs"
    "bs = [] \<and> posts w1 = posts w \<or>
     bs = gate_block (concurrency_check w) (build_request self t jm kwargs w) \<and>
       posts w1 = Suc (posts w)"
    "same_config w w1" by blast
  then show ?thesis
    by (intro exI [of _ "[]"] exI [of _ bs]) simp
next
  case (Some c)
  show ?thesis
  proof (cases "orjson_dumps (JObj kwargs)")
    case (Inl e)
    with Some assms have "w1 = w" by (simp add: make_request_attempt_def)
    then show ?thesis by (intro exI [of _ "[]"]) (simp add: same_config_def)
  next
    case (Inr key)
    define wl where "wl = w\<lparr>events := events w @ [Lookup key]\<rparr>"
    show ?thesis
    proof (cases "c key")
      case None
      with Some Inr assms have d: "dispatch self t jm kwargs (Some key) wl = (out, w1)"
        by (simp add: make_request_attempt_def wl_def)
      from dispatch_effect [OF d] obtain bs where
        "events w1 = events wl @ bs"
        "bs = [] \<and> posts w1 = posts wl \<or>
         bs = gate_block (concurrency_check wl) (build_request self t jm kwargs wl) \<and>
           posts w1 = Suc (posts wl)"
        "same_config wl w1" by blast
      with Inr show ?thesis
        by (intro exI [of _ "[Lookup key]"] exI [of _ bs]) (simp add: wl_def same_config_def)
    next
      case (Some v)
      with \<open>cache w = Some c\<close> Inr assms have "w1 = wl"
        by (simp add: make_request_attempt_def wl_def)
      with Inr show ?thesis
        by (intro exI [of _ "[Lookup key]"] exI [of _ "[]"]) (simp add: wl_def same_config_def)
    qed
  qed
qed

lemma after_block_cache:
  assumes "cache w = Some c" and "after_block (Some key) res w = (out, w1)"
  shows "cache w1 = Some c \<and> (\<forall>v. out \<noteq> Returned v) \<or>
         (\<exists>v. cache w1 = Some (c(key \<mapsto> v)) \<and> out = Returned v)"
proof (cases res)
  case (Failed e)
  with assms show ?thesis by (auto simp: after_block_def)
next
  case (Responded resp)
  show ?thesis
  proof (cases "200 \<le> status_code resp \<and> status_code resp < 300")
    case False
    with Responded assms show ?thesis by (auto simp: after_block_def)
  next
    case True
    show ?thesis
    proof (cases "response_json resp")
      case (Inl e)
      with True Responded assms show ?thesis by (auto simp: after_block_def)
    next
      case (Inr v)
      with True Responded assms have "cache w1 = Some (c(key \<mapsto> v))" "out = Returned v"
        by (auto simp: after_block_def)
      then show ?thesis by blast
    qed
  qed
qed

lemma attempt_cache:
  assumes "cache w = Some c"
    and "make_request_attempt self t jm kwargs w = (out, w1)"
  shows "\<exists>c1. cache w1 = Some c1 \<and>
           (\<forall>k. c1 k \<noteq> c k \<longrightarrow> orjson_dumps (JObj kwargs) = Inr k) \<and>
           (\<forall>v. out = Returned v \<longrightarrow>
              (\<exists>key. orjson_dumps (JObj kwargs) = Inr key \<and> c1 key = Some v))"
proof (cases "orjson_dumps (JObj kwargs)")
  case (Inl e)
  with assms have "w1 = w" "out = Raised e" by (auto simp: make_request_attempt_def)
  with assms(1) show ?thesis by simp
next
  case (Inr key)
  define wl where "wl = w\<lparr>events := events w @ [Lookup key]\<rparr>"
  show ?thesis
  proof (cases "c key")
    case (Some v)
    with assms Inr have "w1 = wl" "out = Returned v"
      by (auto simp: make_request_attempt_def wl_def)
    with assms(1) Some Inr show ?thesis by (simp add: wl_def)
  next
    case None
    with assms Inr have d: "dispatch self t jm kwargs (Some key) wl = (out, w1)"
      by (simp add: make_request_attempt_def wl_def)
    show ?thesis
    proof (cases "async_with_block self t jm kwargs wl")
      case (Returned p)
      obtain res w3 where p: "p = (res, w3)" by (cases p)
      from Returned p d have a: "after_block (Some key) res w3 = (out, w1)"
        by (simp add: dispatch_def)
      from block_effect [OF Returned [unfolded p]] assms(1) have c3: "cache w3 = Some c"
        by (simp add: wl_def)
      from after_block_cache [OF c3 a] show ?thesis
      proof
        assume "cache w1 = Some c \<and> (\<forall>v. out \<noteq> Returned v)"
        then show ?thesis by simp
      next
        assume "\<exists>v. cache w1 = Some (c(key \<mapsto> v)) \<and> out = Returned v"
        then obtain v where cw: "cache w1 = Some (c(key \<mapsto> v))" and o: "out = Returned v"
          by blast
        have 1: "\<forall>k. (c(key \<mapsto> v)) k \<noteq> c k \<longrightarrow> orjson_dumps (JObj kwargs) = Inr k"
          using Inr by auto
        have 2: "\<forall>v'. out = Returned v' \<longrightarrow>
                (\<exists>key'. orjson_dumps (JObj kwargs) = Inr key' \<and> (c(key \<mapsto> v)) key' = Some v')"
          using Inr o by auto
        show ?thesis
        proof (intro exI conjI)
          show "cache w1 = Some (c(key \<mapsto> v))" by (rule cw)
          show "\<forall>k. (c(key \<mapsto> v)) k \<noteq> c k \<longrightarrow> orjson_dumps (JObj kwargs) = Inr k"
            by (rule 1)
          show "\<forall>v'. out = Returned v' \<longrightarrow>
                (\<exists>key'. orjson_dumps (JObj kwargs) = Inr key' \<and> (c(key \<mapsto> v)) key' = Some v')"
            by (rule 2)
        qed
      qed
    next
      case (Raised e)
      with block_not_raised [of self t jm kwargs wl e] show ?thesis by contradiction
    next
      case Suspended
      with d have "w1 = wl" "out = Suspended" by (simp_all add: dispatch_def)
      with assms(1) show ?thesis by (simp add: wl_def)
    qed
  qed
qed

lemma retry_success_cached:
  "cache w = Some c \<Longrightarrow>
   retry_loop (make_request_attempt self t jm kwargs) is_api_error n d w = (Returned (Some v), w1) \<Longrightarrow>
   \<exists>key c1. orjson_dumps (JObj kwargs) = Inr key \<and> cache w1 = Some c1 \<and> c1 key = Some v"
proof (induction n arbitrary: d w c)
  case 0
  then show ?case by simp
next
  case (Suc n)
  define wc where "wc = w\<lparr>events := events w @ [Call]\<rparr>"
  obtain out wa where att: "make_request_attempt self t jm kwargs wc = (out, wa)"
    by (cases "make_request_attempt self t jm kwargs wc")
  have "cache wc = Some c" using Suc.prems(1) by (simp add: wc_def)
  from attempt_cache [OF this att] obtain c1 where
    c1: "cache wa = Some c1"
    and ret: "\<forall>v. out = Returned v \<longrightarrow>
              (\<exists>key. orjson_dumps (JObj kwargs) = Inr key \<and> c1 key = Some v)"
    by blast
  show ?case
  proof (cases out)
    case (Returned v')
    with Suc.prems(2) att have "v' = v" "w1 = wa" by (simp_all add: wc_def)
    with Returned ret c1 show ?thesis by blast
  next
    case Suspended
    with Suc.prems(2) att show ?thesis by (simp add: wc_def)
  next
    case (Raised e)
    show ?thesis
    proof (cases "is_api_error e")
      case (Inl e2)
      with Raised Suc.prems(2) att show ?thesis by (simp add: wc_def)
    next
      case (Inr r)
      show ?thesis
      proof (cases "\<not> r \<or> n = 0")
        case True
        with Inr Raised Suc.prems(2) att show ?thesis by (auto simp: wc_def)
      next
        case False
        define j where "j = fst (random_uniform (d * (1 - jitter)) (d * (1 + jitter)) wa)"
        define w' where "w' = asyncio_sleep j (wa\<lparr>draws := Suc (draws wa)\<rparr>)"
        from False Inr Raised Suc.prems(2) att
        have "retry_loop (make_request_attempt self t jm kwargs) is_api_error n
                (min (d * backoff_multiplier) max_delay_s) w' = (Returned (Some v), w1)"
          by (simp add: wc_def w'_def j_def random_uniform_def)
        moreover have "cache w' = Some c1" using c1 by (simp add: w'_def asyncio_sleep_def)
        ultimately show ?thesis using Suc.IH by blast
      qed
    qed
  qed
qed

section \<open>The key is unambiguous\<close>

lemma hex_val_hex_digit: "k < 16 \<Longrightarrow> hex_val (hex_digit k) = k"
proof -
  have "\<forall>k<16. hex_val (hex_digit k) = k"
    by (simp add: hex_val_def hex_digit_def eval_nat_numeral All_less_Suc)
  then show "k < 16 \<Longrightarrow> hex_val (hex_digit k) = k" by blast
qed

lemma unescape_control:
  assumes "(of_char c :: nat) < 32"
  shows "char_of (16 * hex_val (hex_digit (of_char c div 16)) + hex_val (hex_digit (of_char c mod 16))) = c"
proof -
  have "(of_char c :: nat) div 16 < 16" using assms by simp
  then have "16 * hex_val (hex_digit (of_char c div 16)) + hex_val (hex_digit (of_char c mod 16))
        = (of_char c :: nat)"
    by (simp add: hex_val_hex_digit)
  then show ?thesis by simp
qed

lemma unescape_escape: "unescape (escape_char c @ r) = Some (c, r)"
proof (cases "(of_char c :: nat) < 32")
  case True
  then show ?thesis
    using unescape_control [OF True] by (simp add: escape_char_def)
next
  case False
  then show ?thesis by (simp add: escape_char_def)
qed

lemma unescape_quote: "unescape (CHR 0x22 # r) = None"
  by simp

lemma escaped_inj:
  "concat (map escape_char s) @ CHR 0x22 # r = concat (map escape_char s') @ CHR 0x22 # r'
   \<Longrightarrow> s = s' \<and> r = r'"
proof (induction s arbitrary: s')
  case Nil
  show ?case
  proof (cases s')
    case Nil
    with Nil.prems show ?thesis by simp
  next
    case (Cons c' t')
    with Nil.prems have "CHR 0x22 # r = escape_char c' @ (concat (map escape_char t') @ CHR 0x22 # r')"
      by simp
    then have "unescape (CHR 0x22 # r) = unescape (escape_char c' @ (concat (map escape_char t') @ CHR 0x22 # r'))"
      by (rule arg_cong)
    then show ?thesis by (simp only: unescape_quote unescape_escape) simp
  qed
next
  case (Cons c t)
  show ?case
  proof (cases s')
    case Nil
    with Cons.prems have "escape_char c @ (concat (map escape_char t) @ CHR 0x22 # r) = CHR 0x22 # r'"
      by simp
    then have "unescape (escape_char c @ (concat (map escape_char t) @ CHR 0x22 # r)) = unescape (CHR 0x22 # r')"
      by (rule arg_cong)
    then show ?thesis by (simp only: unescape_quote unescape_escape) simp
  next
    case (Cons c' t')
    with Cons.prems have "escape_char c @ (concat (map escape_char t) @ CHR 0x22 # r)
        = escape_char c' @ (concat (map escape_char t') @ CHR 0x22 # r')"
      by simp
    then have "unescape (escape_char c @ (concat (map escape_char t) @ CHR 0x22 # r))
        = unescape (escape_char c' @ (concat (map escape_char t') @ CHR 0x22 # r'))"
      by (rule arg_cong)
    then have "c = c'" and "concat (map escape_char t) @ CHR 0x22 # r = concat (map escape_char t') @ CHR 0x22 # r'"
      by (simp_all only: unescape_escape option.inject prod.inject)
    with Cons.IH [of t'] Cons show ?thesis by simp
  qed
qed

lemma render_str_inj: "render_str s @ r = render_str s' @ r' \<Longrightarrow> s = s' \<and> r = r'"
  using escaped_inj [of s r s' r'] by (simp add: render_str_def)

lemma digit_char_val: "k < 10 \<Longrightarrow> (of_char (digit_char k) :: nat) = 48 + k"
proof -
  have "\<forall>k<10. (of_char (digit_char k) :: nat) = 48 + k"
    by (simp add: digit_char_def eval_nat_numeral All_less_Suc)
  then show "k < 10 \<Longrightarrow> (of_char (digit_char k) :: nat) = 48 + k" by blast
qed

lemma digit_char_in: "k < 10 \<Longrightarrow> digit_char k \<in> set ''0123456789''"
proof -
  have "\<forall>k<10. digit_char k \<in> set ''0123456789''"
    by (simp add: digit_char_def eval_nat_numeral All_less_Suc)
  then show "k < 10 \<Longrightarrow> digit_char k \<in> set ''0123456789''" by blast
qed

lemma render_nat_digits: "set (render_nat n) \<subseteq> set ''0123456789''"
proof (induction n rule: render_nat.induct)
  case (1 n)
  show ?case
  proof (cases "n < 10")
    case True
    then show ?thesis using digit_char_in [of n] by (subst render_nat.simps) simp
  next
    case False
    have "n mod 10 < 10" by simp
    from digit_char_in [OF this] 1 [OF False] False show ?thesis
      by (subst render_nat.simps) simp
  qed
qed

lemma render_nat_nonempty: "render_nat n \<noteq> []"
  by (subst render_nat.simps) simp

lemma digits_val_snoc: "digits_val (s @ [c]) = 10 * digits_val s + (of_char c - 48)"
  by (simp add: digits_val_def)

lemma digits_val_render_nat: "digits_val (render_nat n) = n"
proof (induction n rule: render_nat.induct)
  case (1 n)
  show ?case
  proof (cases "n < 10")
    case True
    then show ?thesis
      by (subst render_nat.simps) (simp add: digits_val_def digit_char_val)
  next
    case False
    have "n mod 10 < 10" by simp
    from digit_char_val [OF this] 1 [OF False] False show ?thesis
      by (subst render_nat.simps) (simp add: digits_val_snoc)
  qed
qed

lemma render_nat_inj: "render_nat n = render_nat m \<Longrightarrow> n = m"
  by (metis digits_val_render_nat)

lemma render_int_inj: "render_int i = render_int j \<Longrightarrow> i = j"
proof -
  assume eq: "render_int i = render_int j"
  have no_minus: "CHR ''-'' # xs \<noteq> render_nat m" for xs m
  proof
    assume "CHR ''-'' # xs = render_nat m"
    then have "CHR ''-'' \<in> set (render_nat m)" by (metis list.set_intros(1))
    with render_nat_digits [of m] show False by auto
  qed
  show "i = j"
  proof (cases "i < 0")
    case True
    show ?thesis
    proof (cases "j < 0")
      case True
      with \<open>i < 0\<close> eq have "nat (- i) = nat (- j)"
        by (simp add: render_int_def render_nat_inj)
      with True \<open>i < 0\<close> show ?thesis by simp
    next
      case False
      with \<open>i < 0\<close> eq no_minus show ?thesis by (simp add: render_int_def)
    qed
  next
    case False
    show ?thesis
    proof (cases "j < 0")
      case True
      with False eq no_minus [of "render_nat (nat (- j))" "nat i"] show ?thesis
        by (simp add: render_int_def)
    next
      case False
      with \<open>\<not> i < 0\<close> eq have "nat i = nat j"
        by (simp add: render_int_def render_nat_inj)
      with False \<open>\<not> i < 0\<close> show ?thesis by simp
    qed
  qed
qed

lemma render_int_plain: "plain (render_int i)"
  using render_nat_digits [of "nat i"] render_nat_digits [of "nat (- i)"]
  by (auto simp: plain_def render_int_def)

lemma render_int_tag: "\<exists>c cs. render_int i = c # cs \<and> tag c = 2"
proof (cases "i < 0")
  case True
  then show ?thesis by (simp add: render_int_def tag_def)
next
  case False
  obtain c cs where r: "render_nat (nat i) = c # cs"
    using render_nat_nonempty [of "nat i"] by (cases "render_nat (nat i)") auto
  with render_nat_digits [of "nat i"] have "c \<in> set ''0123456789''" by auto
  then have "tag c = 2" by (auto simp: tag_def)
  with r False show ?thesis by (simp add: render_int_def)
qed

lemma plain_delimited: "plain (y # ys) \<Longrightarrow> \<not> delimited (y # ys @ r)"
  by (simp add: plain_def delimited_def)

lemma plain_split:
  "plain xs \<Longrightarrow> plain ys \<Longrightarrow> delimited r \<Longrightarrow> delimited r' \<Longrightarrow> xs @ r = ys @ r'
   \<Longrightarrow> xs = ys \<and> r = r'"
proof (induction xs arbitrary: ys)
  case Nil
  show ?case
  proof (cases ys)
    case Nil
    with Nil.prems(5) show ?thesis by simp
  next
    case (Cons y ys')
    with Nil.prems(5) have "r = y # ys' @ r'" by simp
    with plain_delimited [of y ys' r'] Nil.prems(2,3) Cons show ?thesis by simp
  qed
next
  case (Cons x xs)
  show ?case
  proof (cases ys)
    case Nil
    with Cons.prems(5) have "r' = x # xs @ r" by simp
    with plain_delimited [of x xs r] Cons.prems(1,4) show ?thesis by simp
  next
    case (Cons y ys')
    with Cons.prems(5) have 1: "x = y" "xs @ r = ys' @ r'" by simp_all
    from Cons.prems(1) have 2: "plain xs" by (simp add: plain_def)
    from Cons.prems(2) Cons have 3: "plain ys'" by (simp add: plain_def)
    from Cons.IH [OF 2 3 Cons.prems(3,4) 1(2)] 1(1) Cons show ?thesis by simp
  qed
qed

lemma render_tag: "\<exists>c cs. render v = c # cs \<and> tag c = kind v"
proof (cases v)
  case (JInt i)
  with render_int_tag [of i] show ?thesis by simp
next
  case (JStr s)
  then show ?thesis by (simp add: render_str_def tag_def)
qed (simp_all add: tag_def)

lemma same_kind:
  assumes "render v @ r = render v' @ r'"
  shows "kind v = kind v'"
proof -
  from render_tag [of v] obtain c cs where 1: "render v = c # cs" "tag c = kind v" by blast
  from render_tag [of v'] obtain c' cs' where 2: "render v' = c' # cs'" "tag c' = kind v'" by blast
  from assms 1(1) 2(1) have "c = c'" by simp
  with 1(2) 2(2) show ?thesis by simp
qed

lemma render_not_closing:
  "render v @ r \<noteq> CHR '']'' # r'" "render v @ r \<noteq> CHR ''}'' # r'" "render v @ r \<noteq> CHR '','' # r'"
proof -
  from render_tag [of v] obtain c cs where 1: "render v = c # cs" "tag c = kind v" by blast
  have "kind v < 6" by (cases v) simp_all
  with 1(2) have "tag c \<noteq> 6" by simp
  then have "c \<noteq> CHR '']''" "c \<noteq> CHR ''}''" "c \<noteq> CHR '',''" by (auto simp: tag_def)
  with 1(1) show "render v @ r \<noteq> CHR '']'' # r'" "render v @ r \<noteq> CHR ''}'' # r'"
    "render v @ r \<noteq> CHR '','' # r'" by simp_all
qed

lemma render_str_not_closing: "render_str k @ r \<noteq> CHR ''}'' # r'"
  by (simp add: render_str_def)

lemma delimited_simps [simp]:
  "delimited []" "delimited (CHR '','' # r)" "delimited (CHR '']'' # r)" "delimited (CHR ''}'' # r)"
  by (simp_all add: delimited_def)

lemma plain_atoms [simp]: "plain ''null''" "plain ''true''" "plain ''false''"
  by (simp_all add: plain_def)

lemma elems_step:
  assumes P: "\<And>v' r r'. delimited r \<Longrightarrow> delimited r' \<Longrightarrow> render v @ r = render v' @ r'
                \<Longrightarrow> v = v' \<and> r = r'"
    and Q: "\<And>vs' r r'. vs \<noteq> [] \<Longrightarrow>
                render_elems vs @ CHR '']'' # r = render_elems vs' @ CHR '']'' # r'
                \<Longrightarrow> vs = vs' \<and> r = r'"
    and eq: "render_elems (v # vs) @ CHR '']'' # r = render_elems ws @ CHR '']'' # r'"
  shows "v # vs = ws \<and> r = r'"
proof (cases ws)
  case Nil
  with eq have "render v @ ((if vs = [] then [] else CHR '','' # render_elems vs) @ CHR '']'' # r)
        = CHR '']'' # r'" by (simp split: if_splits)
  with render_not_closing(1) show ?thesis by blast
next
  case (Cons v' vs')
  define t where "t = (if vs = [] then [] else CHR '','' # render_elems vs) @ CHR '']'' # r"
  define t' where "t' = (if vs' = [] then [] else CHR '','' # render_elems vs') @ CHR '']'' # r'"
  have d: "delimited t" "delimited t'" by (simp_all add: t_def t'_def)
  from eq Cons have "render v @ t = render v' @ t'"
    by (simp add: t_def t'_def split: if_splits)
  from P [OF d this] have v: "v = v'" and tt: "t = t'" by simp_all
  show ?thesis
  proof (cases "vs = []")
    case True
    with tt have "vs' = [] \<and> r = r'" by (cases "vs' = []") (simp_all add: t_def t'_def)
    with True v Cons show ?thesis by simp
  next
    case False
    with tt have ne: "vs' \<noteq> []" by (cases "vs' = []") (simp_all add: t_def t'_def)
    with False tt have "render_elems vs @ CHR '']'' # r = render_elems vs' @ CHR '']'' # r'"
      by (simp add: t_def t'_def)
    from Q [OF False this] v Cons show ?thesis by simp
  qed
qed

lemma members_step:
  assumes P: "\<And>v' r r'. delimited r \<Longrightarrow> delimited r' \<Longrightarrow> render v @ r = render v' @ r'
                \<Longrightarrow> v = v' \<and> r = r'"
    and R: "\<And>kvs' r r'. kvs \<noteq> [] \<Longrightarrow>
                render_members kvs @ CHR ''}'' # r = render_members kvs' @ CHR ''}'' # r'
                \<Longrightarrow> kvs = kvs' \<and> r = r'"
    and eq: "render_members ((k, v) # kvs) @ CHR ''}'' # r = render_members ws @ CHR ''}'' # r'"
  shows "(k, v) # kvs = ws \<and> r = r'"
proof (cases ws)
  case Nil
  with eq have "render_str k @ (CHR '':'' # render v @
        (if kvs = [] then [] else CHR '','' # render_members kvs) @ CHR ''}'' # r)
        = CHR ''}'' # r'" by (simp split: if_splits)
  with render_str_not_closing show ?thesis by blast
next
  case (Cons p kvs')
  obtain k' v' where p: "p = (k', v')" by (cases p)
  define t where "t = (if kvs = [] then [] else CHR '','' # render_members kvs) @ CHR ''}'' # r"
  define t' where "t' = (if kvs' = [] then [] else CHR '','' # render_members kvs') @ CHR ''}'' # r'"
  have d: "delimited t" "delimited t'" by (simp_all add: t_def t'_def)
  from eq Cons p have "render_str k @ (CHR '':'' # render v @ t)
                     = render_str k' @ (CHR '':'' # render v' @ t')"
    by (simp add: t_def t'_def split: if_splits)
  from render_str_inj [OF this] have k: "k = k'" and "render v @ t = render v' @ t'" by simp_all
  from P [OF d this(2)] have v: "v = v'" and tt: "t = t'" by simp_all
  show ?thesis
  proof (cases "kvs = []")
    case True
    with tt have "kvs' = [] \<and> r = r'" by (cases "kvs' = []") (simp_all add: t_def t'_def)
    with True k v Cons p show ?thesis by simp
  next
    case False
    with tt have ne: "kvs' \<noteq> []" by (cases "kvs' = []") (simp_all add: t_def t'_def)
    with False tt have "render_members kvs @ CHR ''}'' # r = render_members kvs' @ CHR ''}'' # r'"
      by (simp add: t_def t'_def)
    from R [OF False this] k v Cons p show ?thesis by simp
  qed
qed

lemma kind_cases:
  "kind v' = 0 \<Longrightarrow> v' = JNull"
  "kind v' = 1 \<Longrightarrow> \<exists>b. v' = JBool b"
  "kind v' = 2 \<Longrightarrow> \<exists>i. v' = JInt i"
  "kind v' = 3 \<Longrightarrow> \<exists>s. v' = JStr s"
  "kind v' = 4 \<Longrightarrow> \<exists>vs. v' = JArr vs"
  "kind v' = 5 \<Longrightarrow> \<exists>kvs. v' = JObj kvs"
  by (cases v'; simp)+

lemma render_unique:
  "\<forall>v' r r'. delimited r \<longrightarrow> delimited r' \<longrightarrow> render v @ r = render v' @ r'
      \<longrightarrow> v = v' \<and> r = r'"
  "\<forall>vs' r r'. render_elems vs @ CHR '']'' # r = render_elems vs' @ CHR '']'' # r'
      \<longrightarrow> vs = vs' \<and> r = r'"
  "\<forall>kvs' r r'. render_members kvs @ CHR ''}'' # r = render_members kvs' @ CHR ''}'' # r'
      \<longrightarrow> kvs = kvs' \<and> r = r'"
proof (induction v and vs and kvs rule: render_render_elems_render_members.induct)
  case 1
  show ?case
  proof (intro allI impI)
    fix v' r r'
    assume d: "delimited r" "delimited r'" and eq: "render JNull @ r = render v' @ r'"
    from same_kind [OF eq] have "v' = JNull" using kind_cases(1) [of v'] by simp
    with eq show "JNull = v' \<and> r = r'" by simp
  qed
next
  case (2 b)
  show ?case
  proof (intro allI impI)
    fix v' r r'
    assume d: "delimited r" "delimited r'" and eq: "render (JBool b) @ r = render v' @ r'"
    from same_kind [OF eq] obtain b' where v': "v' = JBool b'"
      using kind_cases(2) [of v'] by auto
    have "plain (render (JBool b))" "plain (render (JBool b'))" by simp_all
    from plain_split [OF this d eq [unfolded v']]
    have "render (JBool b) = render (JBool b')" "r = r'" by simp_all
    then have "b = b'" by (cases b; cases b'; simp)
    with v' \<open>r = r'\<close> show "JBool b = v' \<and> r = r'" by simp
  qed
next
  case (3 i)
  show ?case
  proof (intro allI impI)
    fix v' r r'
    assume d: "delimited r" "delimited r'" and eq: "render (JInt i) @ r = render v' @ r'"
    from same_kind [OF eq] obtain i' where v': "v' = JInt i'"
      using kind_cases(3) [of v'] by auto
    from eq v' have "render_int i @ r = render_int i' @ r'" by simp
    from plain_split [OF render_int_plain render_int_plain d this]
    have "render_int i = render_int i'" "r = r'" by simp_all
    with render_int_inj v' show "JInt i = v' \<and> r = r'" by simp
  qed
next
  case (4 s)
  show ?case
  proof (intro allI impI)
    fix v' r r'
    assume eq: "render (JStr s) @ r = render v' @ r'"
    from same_kind [OF eq] obtain s' where v': "v' = JStr s'"
      using kind_cases(4) [of v'] by auto
    from eq v' have "render_str s @ r = render_str s' @ r'" by simp
    from render_str_inj [OF this] v' show "JStr s = v' \<and> r = r'" by simp
  qed
next
  case (5 vs)
  show ?case
  proof (intro allI impI)
    fix v' r r'
    assume eq: "render (JArr vs) @ r = render v' @ r'"
    from same_kind [OF eq] obtain vs' where v': "v' = JArr vs'"
      using kind_cases(5) [of v'] by auto
    from eq v' have "render_elems vs @ CHR '']'' # r = render_elems vs' @ CHR '']'' # r'"
      by simp
    with 5 v' show "JArr vs = v' \<and> r = r'" by simp
  qed
next
  case (6 kvs)
  show ?case
  proof (intro allI impI)
    fix v' r r'
    assume eq: "render (JObj kvs) @ r = render v' @ r'"
    from same_kind [OF eq] obtain kvs' where v': "v' = JObj kvs'"
      using kind_cases(6) [of v'] by auto
    from eq v' have "render_members kvs @ CHR ''}'' # r = render_members kvs' @ CHR ''}'' # r'"
      by simp
    with 6 v' show "JObj kvs = v' \<and> r = r'" by simp
  qed
next
  case 7
  show ?case
  proof (intro allI impI)
    fix vs' r r'
    assume eq: "render_elems [] @ CHR '']'' # r = render_elems vs' @ CHR '']'' # r'"
    show "[] = vs' \<and> r = r'"
    proof (cases vs')
      case Nil
      with eq show ?thesis by simp
    next
      case (Cons v' ws)
      with eq have "render v' @ ((if ws = [] then [] else CHR '','' # render_elems ws) @ CHR '']'' # r')
            = CHR '']'' # r" by (simp split: if_splits)
      with render_not_closing(1) show ?thesis by blast
    qed
  qed
next
  case (8 v vs)
  show ?case
  proof (intro allI impI)
    fix ws r r'
    assume eq: "render_elems (v # vs) @ CHR '']'' # r = render_elems ws @ CHR '']'' # r'"
    show "v # vs = ws \<and> r = r'"
    proof (rule elems_step [OF _ _ eq])
      fix v' r r'
      assume "delimited r" "delimited r'" "render v @ r = render v' @ r'"
      with 8(1) show "v = v' \<and> r = r'" by blast
    next
      fix vs' r r'
      assume "vs \<noteq> []" "render_elems vs @ CHR '']'' # r = render_elems vs' @ CHR '']'' # r'"
      with 8(2) show "vs = vs' \<and> r = r'" by blast
    qed
  qed
next
  case 9
  show ?case
  proof (intro allI impI)
    fix kvs' r r'
    assume eq: "render_members [] @ CHR ''}'' # r = render_members kvs' @ CHR ''}'' # r'"
    show "[] = kvs' \<and> r = r'"
    proof (cases kvs')
      case Nil
      with eq show ?thesis by simp
    next
      case (Cons p ws)
      obtain k' v' where "p = (k', v')" by (cases p)
      with Cons eq have "render_str k' @ (CHR '':'' # render v' @
            (if ws = [] then [] else CHR '','' # render_members ws) @ CHR ''}'' # r')
            = CHR ''}'' # r" by (simp split: if_splits)
      with render_str_not_closing show ?thesis by blast
    qed
  qed
next
  case (10 k v kvs)
  show ?case
  proof (intro allI impI)
    fix ws r r'
    assume eq: "render_members ((k, v) # kvs) @ CHR ''}'' # r = render_members ws @ CHR ''}'' # r'"
    show "(k, v) # kvs = ws \<and> r = r'"
    proof (rule members_step [OF _ _ eq])
      fix v' r r'
      assume "delimited r" "delimited r'" "render v @ r = render v' @ r'"
      with 10(1) show "v = v' \<and> r = r'" by blast
    next
      fix kvs' r r'
      assume "kvs \<noteq> []" "render_members kvs @ CHR ''}'' # r = render_members kvs' @ CHR ''}'' # r'"
      with 10(2) show "kvs = kvs' \<and> r = r'" by blast
    qed
  qed
qed

lemma render_inj: "render v = render v' \<Longrightarrow> v = v'"
  using render_unique(1) [of v] by (metis append_Nil2 delimited_simps(1))

lemma dumps_inj:
  assumes "orjson_dumps v = Inr k" and "orjson_dumps v' = Inr k"
  shows "v = v'"
proof -
  from assms have "render v = render v'"
    by (auto simp: orjson_dumps_def split: if_splits)
  then show ?thesis by (rule render_inj)
qed

section \<open>Lemmas on a whole call\<close>

lemma make_request_trace:
  "openai_api_key (snd (make_request self t jm kwargs w)) = openai_api_key w \<and>
   (\<exists>evs. events (snd (make_request self t jm kwargs w)) = events w @ evs \<and>
      (\<forall>req. Post req \<in> set evs \<longrightarrow> req = build_request self t jm kwargs w) \<and>
      (\<forall>k. Lookup k \<in> set evs \<longrightarrow> orjson_dumps (JObj kwargs) = Inr k)) \<and>
   (\<forall>c. cache w = Some c \<longrightarrow>
      (\<exists>c1. cache (snd (make_request self t jm kwargs w)) = Some c1 \<and>
         (\<forall>k. c1 k \<noteq> c k \<longrightarrow> orjson_dumps (JObj kwargs) = Inr k)))"
proof -
  define I where "I u \<longleftrightarrow> openai_api_key u = openai_api_key w \<and>
         (\<exists>evs. events u = events w @ evs \<and>
            (\<forall>req. Post req \<in> set evs \<longrightarrow> req = build_request self t jm kwargs w) \<and>
            (\<forall>k. Lookup k \<in> set evs \<longrightarrow> orjson_dumps (JObj kwargs) = Inr k)) \<and>
         (\<forall>c. cache w = Some c \<longrightarrow>
            (\<exists>c1. cache u = Some c1 \<and>
               (\<forall>k. c1 k \<noteq> c k \<longrightarrow> orjson_dumps (JObj kwargs) = Inr k)))" for u :: world
  have "I (snd (retry_loop (make_request_attempt self t jm kwargs) is_api_error
                  max_tries init_delay_s w))"
  proof (rule retry_loop_invariant)
    show "I w" by (simp add: I_def)
  next
    fix u out u1
    assume inv: "I u"
      and att: "make_request_attempt self t jm kwargs (u\<lparr>events := events u @ [Call]\<rparr>) = (out, u1)"
    define uc where "uc = u\<lparr>events := events u @ [Call]\<rparr>"
    from inv obtain evs where sc: "openai_api_key u = openai_api_key w"
      and e: "events u = events w @ evs"
      and p: "\<forall>req. Post req \<in> set evs \<longrightarrow> req = build_request self t jm kwargs w"
      and l: "\<forall>k. Lookup k \<in> set evs \<longrightarrow> orjson_dumps (JObj kwargs) = Inr k"
      and ch: "\<forall>c. cache w = Some c \<longrightarrow>
            (\<exists>c1. cache u = Some c1 \<and>
               (\<forall>k. c1 k \<noteq> c k \<longrightarrow> orjson_dumps (JObj kwargs) = Inr k))"
      unfolding I_def by blast
    have br: "build_request self t jm kwargs u = build_request self t jm kwargs w"
      using sc by (rule build_request_key)
    from attempt_effect [OF att] obtain ls bs where
      e1: "events u1 = (events u @ [Call]) @ ls @ bs"
      and ls: "ls = [] \<or> (\<exists>k. ls = [Lookup k] \<and> orjson_dumps (JObj kwargs) = Inr k)"
      and bs: "bs = [] \<or> bs = gate_block (concurrency_check u) (build_request self t jm kwargs u)"
      and sc1: "same_config (u\<lparr>events := events u @ [Call]\<rparr>) u1"
      by auto
    have 1: "openai_api_key u1 = openai_api_key w" using sc sc1 by (simp add: same_config_def)
    have 2: "events u1 = events w @ (evs @ Call # ls @ bs)" using e e1 by simp
    have 3: "\<forall>req. Post req \<in> set (evs @ Call # ls @ bs) \<longrightarrow> req = build_request self t jm kwargs w"
      using p ls bs br by (auto simp: gate_block_def split: option.splits)
    have 4: "\<forall>k. Lookup k \<in> set (evs @ Call # ls @ bs) \<longrightarrow> orjson_dumps (JObj kwargs) = Inr k"
      using l ls bs by (auto simp: gate_block_def split: option.splits)
    have 5: "\<exists>c1. cache u1 = Some c1 \<and> (\<forall>k. c1 k \<noteq> c k \<longrightarrow> orjson_dumps (JObj kwargs) = Inr k)"
      if c: "cache w = Some c" for c
    proof -
      from ch c obtain cu where cu: "cache u = Some cu"
        and d: "\<forall>k. cu k \<noteq> c k \<longrightarrow> orjson_dumps (JObj kwargs) = Inr k" by blast
      from cu have "cache (u\<lparr>events := events u @ [Call]\<rparr>) = Some cu" by simp
      from attempt_cache [OF this att] obtain c1 where c1: "cache u1 = Some c1"
        and d1: "\<forall>k. c1 k \<noteq> cu k \<longrightarrow> orjson_dumps (JObj kwargs) = Inr k" by blast
      have "\<forall>k. c1 k \<noteq> c k \<longrightarrow> orjson_dumps (JObj kwargs) = Inr k"
      proof (intro allI impI)
        fix k assume "c1 k \<noteq> c k"
        then have "c1 k \<noteq> cu k \<or> cu k \<noteq> c k" by auto
        with d d1 show "orjson_dumps (JObj kwargs) = Inr k" by blast
      qed
      with c1 show ?thesis by blast
    qed
    show "I u1" unfolding I_def using 1 2 3 4 5 by blast
  next
    fix u d
    assume inv: "I u"
    define us where "us = asyncio_sleep d (u\<lparr>draws := Suc (draws u)\<rparr>)"
    from inv obtain evs where sc: "openai_api_key u = openai_api_key w"
      and e: "events u = events w @ evs"
      and p: "\<forall>req. Post req \<in> set evs \<longrightarrow> req = build_request self t jm kwargs w"
      and l: "\<forall>k. Lookup k \<in> set evs \<longrightarrow> orjson_dumps (JObj kwargs) = Inr k"
      and ch: "\<forall>c. cache w = Some c \<longrightarrow>
            (\<exists>c1. cache u = Some c1 \<and>
               (\<forall>k. c1 k \<noteq> c k \<longrightarrow> orjson_dumps (JObj kwargs) = Inr k))"
      unfolding I_def by blast
    have 1: "openai_api_key us = openai_api_key w"
      using sc by (simp add: us_def asyncio_sleep_def)
    have 2: "events us = events w @ (evs @ [Sleep d])"
      using e by (simp add: us_def asyncio_sleep_def)
    have 3: "\<forall>req. Post req \<in> set (evs @ [Sleep d]) \<longrightarrow> req = build_request self t jm kwargs w"
      using p by simp
    have 4: "\<forall>k. Lookup k \<in> set (evs @ [Sleep d]) \<longrightarrow> orjson_dumps (JObj kwargs) = Inr k"
      using l by simp
    have 5: "cache us = cache u" by (simp add: us_def asyncio_sleep_def)
    show "I (asyncio_sleep d (u\<lparr>draws := Suc (draws u)\<rparr>))"
      unfolding I_def us_def [symmetric] using 1 2 3 4 ch unfolding 5 by blast
  qed
  then show ?thesis
    unfolding I_def make_request_def f_retry_def .
qed

lemma update_model:
  "''model'' \<notin> fst ` set pre \<Longrightarrow>
   AList.update ''model'' m (pre @ (''model'', v) # post) = pre @ (''model'', m) # post"
  by (induction pre) auto

lemma build_request_model:
  assumes "''model'' \<notin> fst ` set pre"
  shows "build_request self t jm (pre @ (''model'', v1) # post) w
       = build_request self t jm (pre @ (''model'', v2) # post) w"
  using assms by (simp add: build_request_def update_model Let_def)

section \<open>The example runs\<close>

lemma demo_key:
  \<open>orjson_dumps (JObj demo_kwargs) =
     Inr ''{"prompt":"Why did the chicken cross the road?","max_tokens":9}''\<close>
  by (simp add: orjson_dumps_def demo_kwargs_def render_str_def escape_char_def render_int_def
        render_nat.simps digit_char_def)

lemma bad_request_run:
  "make_request demo_client None False demo_kwargs bad_request_world =
     (Raised (HTTPStatusError bad_request),
      bad_request_world\<lparr>events :=
         [Call, Acquire, Post (build_request demo_client None False demo_kwargs bad_request_world),
          Release], posts := 1\<rparr>)"
  by (simp add: make_request_def f_retry_def max_tries_def eval_nat_numeral
        make_request_attempt_def dispatch_def block_gate after_block_def
        bad_request_world_def offline_world_def bad_request_def response_json_def
        build_request_def api_http_headers_def demo_client_def)


lemma swapped_key:
  \<open>orjson_dumps (JObj demo_kwargs_swapped) =
     Inr ''{"max_tokens":9,"prompt":"Why did the chicken cross the road?"}''\<close>
  by (simp add: orjson_dumps_def demo_kwargs_swapped_def render_str_def escape_char_def
        render_int_def render_nat.simps digit_char_def)

lemma caching_world_cache: "cache caching_world = Some Map.empty"
  by (simp add: caching_world_def)

lemma model_keys:
  \<open>orjson_dumps (JObj model_kwargs_a) = Inr ''{"model":"gpt-4","prompt":"Hello"}''\<close>
  \<open>orjson_dumps (JObj model_kwargs_b) = Inr ''{"model":"davinci","prompt":"Hello"}''\<close>
  by (simp_all add: orjson_dumps_def model_kwargs_a_def model_kwargs_b_def render_str_def
        escape_char_def)

lemma model_runs:
  "fst (make_request demo_client None False model_kwargs_a caching_world)
     = Returned (Some ok_body)"
  "fst (make_request demo_client None False model_kwargs_b
          (snd (make_request demo_client None False model_kwargs_a caching_world)))
     = Returned (Some ok_body)"
  by (simp_all add: make_request_def f_retry_def max_tries_def eval_nat_numeral
        make_request_attempt_def model_keys dispatch_def block_gate after_block_def
        caching_world_def offline_world_def ok_response_def response_json_def)

section \<open>The claims\<close>

text \<open>
  C1. The classifier returns the verdict of the rule table for every failure; in
  particular an HTTP error response with a status other than 400, 404 and 415 is
  retryable. The code does not: for a response with status 500 whose body is not JSON
  the classifier returns no verdict and raises the decoder's exception.
\<close>

theorem classifier_raises_on_unparsable_body:
  "is_api_error (HTTPStatusError \<lparr>status_code = 500, json_body = None\<rparr>) = Inl JSONDecodeError"
  by (simp add: response_json_def)

text \<open>
  C2. When every attempt fails with a retryable error, the retry loop awaits the
  operation exactly 200 times: the call that ends the loop is made after 199 earlier
  ones, and the loop raises the very exception of that call, in the state that call
  left.
\<close>

theorem exhaustion_after_max_tries:
  assumes "persistently_transient P f retry_on" and "P w"
  shows "\<exists>e w_last w_end.
           P w_last \<and> calls_of (events w_last) = calls_of (events w) + 199 \<and>
           f (w_last\<lparr>events := events w_last @ [Call]\<rparr>) = (Raised e, w_end) \<and>
           f_retry f retry_on w = (Raised e, w_end) \<and>
           calls_of (events w_end) = calls_of (events w) + 200"
proof -
  from retry_loop_transient [OF assms, of 199 init_delay_s] obtain e w_last w_end where
    "P w_last" "f (w_last\<lparr>events := events w_last @ [Call]\<rparr>) = (Raised e, w_end)"
    "retry_loop f retry_on (Suc 199) init_delay_s w = (Raised e, w_end)"
    "calls_of (events w_last) = calls_of (events w) + 199"
    "calls_of (events w_end) = calls_of (events w) + Suc 199"
    by blast
  then show ?thesis
    by (intro exI [of _ e] exI [of _ w_last] exI [of _ w_end])
       (simp add: f_retry_def max_tries_Suc)
qed

theorem exhaustion_after_max_tries_witness:
  "fst (make_request demo_client None False demo_kwargs offline_world) = Raised ConnectError \<and>
   calls_of (events (snd (make_request demo_client None False demo_kwargs offline_world))) = 200"
proof -
  from exhaustion_after_max_tries [OF offline_persistently_transient offline_world_offline,
      of demo_client None False demo_kwargs]
  obtain e w_last w_end where
    a: "offline w_last"
    and b: "make_request_attempt demo_client None False demo_kwargs
              (w_last\<lparr>events := events w_last @ [Call]\<rparr>) = (Raised e, w_end)"
    and c: "f_retry (make_request_attempt demo_client None False demo_kwargs) is_api_error
              offline_world = (Raised e, w_end)"
    and d: "calls_of (events w_end) = calls_of (events offline_world) + 200"
    by blast
  from offline_attempt [OF a, of demo_client None False demo_kwargs] b
  have "e = ConnectError" by auto
  with c d show ?thesis by (simp add: make_request_def offline_world_def)
qed

text \<open>
  C3, as amended. Under a persistently failing transient condition with every draw
  between 0 and 1, the loop sleeps 199 times; sleep \<open>k\<close> is the jittered value of the
  delay \<open>min (2 ^ k) 10\<close> for the \<open>k\<close>-th draw and lies within 20 per cent of that delay,
  and these delays never decrease. The sleeps themselves may decrease.
\<close>

theorem backoff_sleeps_within_jitter:
  assumes "persistently_transient P f retry_on" and "P w"
    and "\<forall>k. 0 \<le> uniform01 w k \<and> uniform01 w k \<le> 1"
  shows "\<exists>sleeps.
           sleeps_of (events (snd (f_retry f retry_on w))) = sleeps_of (events w) @ sleeps \<and>
           length sleeps = 199 \<and>
           (\<forall>k<199. sleeps ! k = jittered (nominal_delay k) (uniform01 w (draws w + k)) \<and>
                     nominal_delay k * 0.8 \<le> sleeps ! k \<and>
                     sleeps ! k \<le> nominal_delay k * 1.2 \<and>
                     nominal_delay k = delay_after k init_delay_s \<and>
                     nominal_delay k \<le> nominal_delay (Suc k))"
proof -
  define sleeps where "sleeps = backoff_sleeps 199 init_delay_s (uniform01 w) (draws w)"
  from retry_loop_transient [OF assms(1,2), of 199 init_delay_s] obtain e w_end where
    "retry_loop f retry_on (Suc 199) init_delay_s w = (Raised e, w_end)"
    "sleeps_of (events w_end) = sleeps_of (events w) @ sleeps"
    unfolding sleeps_def by blast
  then have 1: "sleeps_of (events (snd (f_retry f retry_on w))) = sleeps_of (events w) @ sleeps"
    by (simp add: f_retry_def max_tries_Suc)
  have nom: "nominal_delay k = delay_after k init_delay_s" for k
    by (simp add: nominal_delay_def init_delay_s_def delay_after_closed)
  have pos: "0 \<le> nominal_delay k" for k
    by (simp add: nominal_delay_def)
  have mono: "nominal_delay k \<le> nominal_delay (Suc k)" for k
    by (simp add: nominal_delay_def min_def)
  have 3: "sleeps ! k = jittered (nominal_delay k) (uniform01 w (draws w + k)) \<and>
           nominal_delay k * 0.8 \<le> sleeps ! k \<and> sleeps ! k \<le> nominal_delay k * 1.2 \<and>
           nominal_delay k = delay_after k init_delay_s \<and>
           nominal_delay k \<le> nominal_delay (Suc k)" if "k < 199" for k
  proof -
    have s: "sleeps ! k = jittered (nominal_delay k) (uniform01 w (draws w + k))"
      using that by (simp add: sleeps_def backoff_sleeps_nth nom)
    from assms(3) have "0 \<le> uniform01 w (draws w + k)" "uniform01 w (draws w + k) \<le> 1"
      by simp_all
    from jittered_bounds [OF pos this] s nom mono show ?thesis by simp
  qed
  show ?thesis
    by (intro exI [of _ sleeps] conjI 1 allI impI 3) (simp_all add: sleeps_def)
qed

theorem backoff_sleeps_within_jitter_witness:
  "\<exists>sleeps.
     sleeps_of (events (snd (make_request demo_client None False demo_kwargs offline_world)))
       = sleeps \<and> length sleeps = 199 \<and> sleeps ! 0 = 8 / 10 \<and> sleeps ! 3 = 64 / 10"
proof -
  have u: "\<forall>k. 0 \<le> uniform01 offline_world k \<and> uniform01 offline_world k \<le> 1"
    by (simp add: offline_world_def)
  from backoff_sleeps_within_jitter [OF offline_persistently_transient offline_world_offline u,
      of demo_client None False demo_kwargs]
  obtain sleeps where
    a: "sleeps_of (events (snd (f_retry (make_request_attempt demo_client None False demo_kwargs)
          is_api_error offline_world))) = sleeps_of (events offline_world) @ sleeps"
    and b: "length sleeps = 199"
    and c: "\<forall>k<199. sleeps ! k = jittered (nominal_delay k)
              (uniform01 offline_world (draws offline_world + k))"
    by blast
  from c have "sleeps ! 0 = jittered (nominal_delay 0) (uniform01 offline_world (draws offline_world + 0))"
    by (simp del: add_0_right)
  then have c0: "sleeps ! 0 = 8 / 10"
    by (simp add: jittered_def jitter_def nominal_delay_def offline_world_def)
  from c have "sleeps ! 3 = jittered (nominal_delay 3) (uniform01 offline_world (draws offline_world + 3))"
    by simp
  then have c3: "sleeps ! 3 = 64 / 10"
    by (simp add: jittered_def jitter_def nominal_delay_def offline_world_def)
  from a have "sleeps_of (events (snd (make_request demo_client None False demo_kwargs offline_world))) = sleeps"
    by (simp add: make_request_def offline_world_def)
  with b c0 c3 show ?thesis by blast
qed

text \<open>
  C3 as stated fails: against a network that never connects, with the draws 1/2 and 0
  for the fifth and sixth sleeps, the loop sleeps 10 seconds and then 8.
\<close>

theorem sleeps_not_monotone:
  "sleeps_of (events (snd (make_request demo_client None False demo_kwargs offline_world))) ! 4 = 10 \<and>
   sleeps_of (events (snd (make_request demo_client None False demo_kwargs offline_world))) ! 5 = 8 \<and>
   \<not> sorted (sleeps_of (events (snd (make_request demo_client None False demo_kwargs offline_world))))"
proof -
  define sleeps where
    "sleeps = sleeps_of (events (snd (make_request demo_client None False demo_kwargs offline_world)))"
  from retry_loop_transient [OF offline_persistently_transient offline_world_offline,
      of demo_client None False demo_kwargs 199 init_delay_s]
  obtain e w_end where
    "retry_loop (make_request_attempt demo_client None False demo_kwargs) is_api_error
       (Suc 199) init_delay_s offline_world = (Raised e, w_end)"
    "sleeps_of (events w_end) = sleeps_of (events offline_world) @
       backoff_sleeps 199 init_delay_s (uniform01 offline_world) (draws offline_world)"
    by blast
  then have eq: "sleeps = backoff_sleeps 199 init_delay_s (uniform01 offline_world) 0"
    by (simp add: sleeps_def make_request_def f_retry_def max_tries_Suc offline_world_def)
  have d4: "delay_after 4 init_delay_s = 10" and d5: "delay_after 5 init_delay_s = 10"
    by (simp_all add: delay_after_closed init_delay_s_def)
  have s4: "sleeps ! 4 = 10"
    by (simp add: eq backoff_sleeps_nth d4 jittered_def jitter_def offline_world_def)
  have s5: "sleeps ! 5 = 8"
    by (simp add: eq backoff_sleeps_nth d5 jittered_def jitter_def offline_world_def)
  have len: "length sleeps = 199" by (simp add: eq)
  have "\<not> sorted sleeps"
  proof
    assume "sorted sleeps"
    then have "sleeps ! 4 \<le> sleeps ! 5" using len by (intro sorted_nth_mono) simp_all
    with s4 s5 show False by simp
  qed
  with s4 s5 show ?thesis unfolding sleeps_def by blast
qed



text \<open>
  C9. When an attempt, the first or a later one, fails with an HTTP error response whose
  body is not valid JSON, the classifier raises the decoder's exception instead of
  returning a verdict, and the loop ends there: the caller receives that exception, not
  the HTTP status error, in the state the attempt left.
\<close>

theorem unparsable_error_body_ends_loop:
  assumes "f (w\<lparr>events := events w @ [Call]\<rparr>) = (Raised (HTTPStatusError r), w1)"
    and "json_body r = None"
  shows "is_api_error (HTTPStatusError r) = Inl JSONDecodeError \<and>
         retry_loop f is_api_error (Suc n) d w = (Raised JSONDecodeError, w1)"
  using assms by (simp add: response_json_def)

theorem unparsable_error_body_ends_loop_witness:
  "is_api_error (HTTPStatusError bad_gateway) = Inl JSONDecodeError \<and>
   fst (make_request demo_client None False demo_kwargs bad_gateway_world)
     = Raised JSONDecodeError \<and>
   calls_of (events (snd (make_request demo_client None False demo_kwargs bad_gateway_world))) = 1 \<and>
   sleeps_of (events (snd (make_request demo_client None False demo_kwargs bad_gateway_world))) = []"
proof -
  obtain w1 where
    a: "make_request_attempt demo_client None False demo_kwargs
          (bad_gateway_world\<lparr>events := events bad_gateway_world @ [Call]\<rparr>)
        = (Raised (HTTPStatusError bad_gateway), w1)"
    and b: "calls_of (events w1) = 1" "sleeps_of (events w1) = []"
    by (simp add: make_request_attempt_def dispatch_def async_with_block_def after_block_def acquire_def release_def http_post_def
          bad_gateway_world_def offline_world_def bad_gateway_def)
  have c: "json_body bad_gateway = None" by (simp add: bad_gateway_def)
  from unparsable_error_body_ends_loop
         [where f = "make_request_attempt demo_client None False demo_kwargs"
            and w = bad_gateway_world, OF a c, of 199 init_delay_s] b
  show ?thesis by (simp add: make_request_def f_retry_def max_tries_Suc)
qed





text \<open>
  C8. Every request that a call posts goes to the base URL followed by
  \<^verbatim>\<open>/chat/completions\<close> when the payload has a field \<^verbatim>\<open>messages\<close>, and by
  \<^verbatim>\<open>/completions\<close> otherwise; so the chat endpoint is used if and only if the field is
  there.
\<close>

theorem endpoint_by_messages_field:
  assumes "Post req \<in> set (drop (length (events w)) (events (snd (make_request self t jm kwargs w))))"
  shows "url req = base_api_url self @
           (if ''messages'' \<in> fst ` set kwargs then ''/chat/completions'' else ''/completions'') \<and>
         (url req = base_api_url self @ ''/chat/completions'' \<longleftrightarrow> ''messages'' \<in> fst ` set kwargs)"
proof -
  define I where "I w' \<longleftrightarrow> openai_api_key w' = openai_api_key w \<and>
      (\<exists>evs. events w' = events w @ evs \<and>
         (\<forall>req. Post req \<in> set evs \<longrightarrow> req = build_request self t jm kwargs w))" for w' :: world
  have "I (snd (retry_loop (make_request_attempt self t jm kwargs) is_api_error
                  max_tries init_delay_s w))"
  proof (rule retry_loop_invariant)
    show "I w" by (simp add: I_def)
  next
    fix w' out w1
    assume inv: "I w'"
      and att: "make_request_attempt self t jm kwargs (w'\<lparr>events := events w' @ [Call]\<rparr>) = (out, w1)"
    from inv obtain evs where k: "openai_api_key w' = openai_api_key w"
      and e: "events w' = events w @ evs"
      and p: "\<forall>req. Post req \<in> set evs \<longrightarrow> req = build_request self t jm kwargs w"
      by (auto simp: I_def)
    have br: "build_request self t jm kwargs w' = build_request self t jm kwargs w"
      using k by (rule build_request_key)
    from attempt_effect [OF att] obtain ls bs where
      e1: "events w1 = (events w' @ [Call]) @ ls @ bs"
      and ls: "ls = [] \<or> (\<exists>k. ls = [Lookup k])"
      and bs: "bs = [] \<or> bs = gate_block (concurrency_check w') (build_request self t jm kwargs w')"
      and sc: "same_config (w'\<lparr>events := events w' @ [Call]\<rparr>) w1"
      by auto
    from ls bs br have "\<forall>req. Post req \<in> set (Call # ls @ bs) \<longrightarrow> req = build_request self t jm kwargs w"
      by (auto simp: gate_block_def split: option.splits)
    with p have "\<forall>req. Post req \<in> set (evs @ Call # ls @ bs) \<longrightarrow> req = build_request self t jm kwargs w"
      by auto
    moreover have "events w1 = events w @ evs @ Call # ls @ bs" using e e1 by simp
    moreover have "openai_api_key w1 = openai_api_key w" using sc k by (simp add: same_config_def)
    ultimately show "I w1" unfolding I_def by blast
  next
    fix w' d
    assume inv: "I w'"
    then show "I (asyncio_sleep d (w'\<lparr>draws := Suc (draws w')\<rparr>))"
      unfolding I_def by (auto simp: asyncio_sleep_def)
  qed
  with assms have "req = build_request self t jm kwargs w"
    by (auto simp: I_def make_request_def f_retry_def)
  then show ?thesis by (simp add: build_request_def Let_def)
qed

theorem endpoint_by_messages_field_witness:
  "url (build_request demo_client None False demo_kwargs bad_request_world)
     = ''https://api.openai.com/v1/completions''"
proof -
  have "Post (build_request demo_client None False demo_kwargs bad_request_world)
          \<in> set (drop (length (events bad_request_world))
                (events (snd (make_request demo_client None False demo_kwargs bad_request_world))))"
    by (simp add: bad_request_run) (simp add: bad_request_world_def offline_world_def)
  from endpoint_by_messages_field [OF this] show ?thesis
    by (simp add: demo_client_def demo_kwargs_def)
qed

text \<open>
  C4, as amended. On a client with a cache, every key that a call looks up, and the only
  key under which the call can change the cache, is the serialisation of the fields the
  caller passed, in the order in which they were passed: the model name of the client and
  the JSON mode have no part in it. So two calls that pass the same fields in the same
  order use the same key.
\<close>

theorem cache_key_of_supplied_fields:
  assumes "cache w = Some c"
  shows "(\<forall>k. Lookup k \<in> set (drop (length (events w))
                  (events (snd (make_request self t jm kwargs w))))
              \<longrightarrow> orjson_dumps (JObj kwargs) = Inr k) \<and>
         (\<exists>c1. cache (snd (make_request self t jm kwargs w)) = Some c1 \<and>
            (\<forall>k. c1 k \<noteq> c k \<longrightarrow> orjson_dumps (JObj kwargs) = Inr k))"
proof -
  from make_request_trace [of self t jm kwargs w] obtain evs where
    e: "events (snd (make_request self t jm kwargs w)) = events w @ evs"
    and l: "\<forall>k. Lookup k \<in> set evs \<longrightarrow> orjson_dumps (JObj kwargs) = Inr k"
    and ch: "\<forall>c. cache w = Some c \<longrightarrow>
      (\<exists>c1. cache (snd (make_request self t jm kwargs w)) = Some c1 \<and>
         (\<forall>k. c1 k \<noteq> c k \<longrightarrow> orjson_dumps (JObj kwargs) = Inr k))"
    by blast
  from e l have "\<forall>k. Lookup k \<in> set (drop (length (events w))
                  (events (snd (make_request self t jm kwargs w))))
              \<longrightarrow> orjson_dumps (JObj kwargs) = Inr k" by simp
  with ch assms show ?thesis by blast
qed

theorem cache_key_of_supplied_fields_witness:
  \<open>\<exists>c1. cache (snd (make_request demo_client None True demo_kwargs caching_world)) = Some c1 \<and>
     (\<forall>k. c1 k \<noteq> None \<longrightarrow>
        k = ''{"prompt":"Why did the chicken cross the road?","max_tokens":9}'')\<close>
  using cache_key_of_supplied_fields [OF caching_world_cache, of demo_client None True demo_kwargs]
  by (auto simp: demo_key)

text \<open>
  C4 as stated fails: the two payloads below hold the same pairs of field and value in
  different orders and get different keys; after a successful call with the first, a
  repeated call with the first is answered from the cache, and a call with the second is
  posted again.
\<close>

theorem cache_key_depends_on_field_order:
  "set demo_kwargs_swapped = set demo_kwargs \<and>
   orjson_dumps (JObj demo_kwargs_swapped) \<noteq> orjson_dumps (JObj demo_kwargs) \<and>
   posts (snd (make_request demo_client None False demo_kwargs
            (snd (make_request demo_client None False demo_kwargs caching_world)))) = 1 \<and>
   posts (snd (make_request demo_client None False demo_kwargs_swapped
            (snd (make_request demo_client None False demo_kwargs caching_world)))) = 2"
proof -
  have 1: "set demo_kwargs_swapped = set demo_kwargs"
    by (auto simp: demo_kwargs_swapped_def demo_kwargs_def)
  have 2: "orjson_dumps (JObj demo_kwargs_swapped) \<noteq> orjson_dumps (JObj demo_kwargs)"
    by (simp add: demo_key swapped_key)
  have 3: "posts (snd (make_request demo_client None False demo_kwargs
            (snd (make_request demo_client None False demo_kwargs caching_world)))) = 1"
    by (simp add: make_request_def f_retry_def max_tries_def eval_nat_numeral
        make_request_attempt_def demo_key dispatch_def block_gate after_block_def
        caching_world_def offline_world_def ok_response_def response_json_def)
  have 4: "posts (snd (make_request demo_client None False demo_kwargs_swapped
            (snd (make_request demo_client None False demo_kwargs caching_world)))) = 2"
    by (simp add: make_request_def f_retry_def max_tries_def eval_nat_numeral
        make_request_attempt_def demo_key swapped_key dispatch_def block_gate after_block_def
        caching_world_def offline_world_def ok_response_def response_json_def)
  from 1 2 3 4 show ?thesis by blast
qed

text \<open>
  C10. Let two payloads differ only in the value of a field \<^verbatim>\<open>model\<close> that the caller
  passed, and let a client with a cache make a successful call with each, one after the
  other. Then the request of the first call and the request of the second are the same,
  with the model name of the client in place of the caller's value, and every request
  posted by the two calls is that request; yet the two calls have different keys, and
  after the second call the cache holds both entries.
\<close>

theorem caller_model_keyed_but_overwritten:
  assumes v: "v1 \<noteq> v2" and pre: "''model'' \<notin> fst ` set pre"
    and c: "cache w \<noteq> None"
    and call1: "make_request self t jm (pre @ (''model'', v1) # post) w = (Returned (Some r1), w1)"
    and call2: "make_request self t jm (pre @ (''model'', v2) # post) w1 = (Returned (Some r2), w2)"
  shows "build_request self t jm (pre @ (''model'', v1) # post) w
           = build_request self t jm (pre @ (''model'', v2) # post) w1 \<and>
         body (build_request self t jm (pre @ (''model'', v1) # post) w)
           = (if jm then AList.update ''response_format'' (JObj [(''type'', JStr ''json_object'')])
                           (pre @ (''model'', JStr (model_name self)) # post)
              else pre @ (''model'', JStr (model_name self)) # post) \<and>
         (\<forall>req. Post req \<in> set (drop (length (events w)) (events w2)) \<longrightarrow>
            req = build_request self t jm (pre @ (''model'', v1) # post) w) \<and>
         (\<exists>k1 k2 c2. orjson_dumps (JObj (pre @ (''model'', v1) # post)) = Inr k1 \<and>
            orjson_dumps (JObj (pre @ (''model'', v2) # post)) = Inr k2 \<and> k1 \<noteq> k2 \<and>
            cache w2 = Some c2 \<and> c2 k1 = Some r1 \<and> c2 k2 = Some r2)"
proof -
  define kw1 where "kw1 = pre @ (''model'', v1) # post"
  define kw2 where "kw2 = pre @ (''model'', v2) # post"
  from c obtain c0 where c0: "cache w = Some c0" by auto
  have w1: "w1 = snd (make_request self t jm kw1 w)" using call1 by (simp add: kw1_def)
  have w2: "w2 = snd (make_request self t jm kw2 w1)" using call2 by (simp add: kw2_def)
  from make_request_trace [of self t jm kw1 w] obtain evs1 where
    k1: "openai_api_key w1 = openai_api_key w"
    and e1: "events w1 = events w @ evs1"
    and p1: "\<forall>req. Post req \<in> set evs1 \<longrightarrow> req = build_request self t jm kw1 w"
    unfolding w1 by blast
  from make_request_trace [of self t jm kw2 w1] obtain evs2 where
    e2: "events w2 = events w1 @ evs2"
    and p2: "\<forall>req. Post req \<in> set evs2 \<longrightarrow> req = build_request self t jm kw2 w1"
    and ch2: "\<forall>c. cache w1 = Some c \<longrightarrow>
      (\<exists>c1. cache w2 = Some c1 \<and> (\<forall>k. c1 k \<noteq> c k \<longrightarrow> orjson_dumps (JObj kw2) = Inr k))"
    unfolding w2 by blast
  have "build_request self t jm kw2 w1 = build_request self t jm kw2 w"
    using k1 by (rule build_request_key)
  also have "\<dots> = build_request self t jm kw1 w"
    unfolding kw1_def kw2_def using pre by (rule build_request_model [symmetric])
  finally have same: "build_request self t jm kw1 w = build_request self t jm kw2 w1" by simp
  have bd: "body (build_request self t jm kw1 w)
           = (if jm then AList.update ''response_format'' (JObj [(''type'', JStr ''json_object'')])
                           (pre @ (''model'', JStr (model_name self)) # post)
              else pre @ (''model'', JStr (model_name self)) # post)"
    using pre by (simp add: build_request_def kw1_def update_model Let_def)
  have posts: "\<forall>req. Post req \<in> set (drop (length (events w)) (events w2)) \<longrightarrow>
            req = build_request self t jm kw1 w"
    using e1 e2 p1 p2 same by auto
  from retry_success_cached [OF c0 call1 [unfolded make_request_def f_retry_def]]
  obtain key1 c1 where d1: "orjson_dumps (JObj kw1) = Inr key1"
    and cw1: "cache w1 = Some c1" and h1: "c1 key1 = Some r1"
    unfolding kw1_def by blast
  from retry_success_cached [OF cw1 call2 [unfolded make_request_def f_retry_def]]
  obtain key2 c2 where d2: "orjson_dumps (JObj kw2) = Inr key2"
    and cw2: "cache w2 = Some c2" and h2: "c2 key2 = Some r2"
    unfolding kw2_def by blast
  have ne: "key1 \<noteq> key2"
  proof
    assume "key1 = key2"
    with d1 d2 have "JObj kw1 = JObj kw2" by (intro dumps_inj [of _ key2]) simp_all
    with v show False by (simp add: kw1_def kw2_def)
  qed
  from ch2 cw1 cw2 have "\<forall>k. c2 k \<noteq> c1 k \<longrightarrow> orjson_dumps (JObj kw2) = Inr k" by simp
  with d2 ne have "c2 key1 = c1 key1" by auto
  with h1 have h1': "c2 key1 = Some r1" by simp
  from same bd posts d1 d2 ne cw2 h1' h2 show ?thesis
    unfolding kw1_def kw2_def by blast
qed

theorem caller_model_keyed_but_overwritten_witness:
  "body (build_request demo_client None False model_kwargs_a caching_world)
     = [(''model'', JStr ''gpt-3.5-turbo''), (''prompt'', JStr ''Hello'')] \<and>
   build_request demo_client None False model_kwargs_a caching_world
     = build_request demo_client None False model_kwargs_b
         (snd (make_request demo_client None False model_kwargs_a caching_world)) \<and>
   (\<exists>k1 k2 c2. k1 \<noteq> k2 \<and>
      cache (snd (make_request demo_client None False model_kwargs_b
          (snd (make_request demo_client None False model_kwargs_a caching_world)))) = Some c2 \<and>
      c2 k1 = Some ok_body \<and> c2 k2 = Some ok_body)"
proof -
  define w1 where "w1 = snd (make_request demo_client None False model_kwargs_a caching_world)"
  define w2 where "w2 = snd (make_request demo_client None False model_kwargs_b w1)"
  have v: "JStr ''gpt-4'' \<noteq> JStr ''davinci''" by simp
  have pre: "''model'' \<notin> fst ` set ([] :: (string \<times> json) list)" by simp
  have c: "cache caching_world \<noteq> None" by (simp add: caching_world_def)
  have call1: "make_request demo_client None False
                 ([] @ (''model'', JStr ''gpt-4'') # [(''prompt'', JStr ''Hello'')]) caching_world
               = (Returned (Some ok_body), w1)"
    using model_runs(1) by (simp add: w1_def prod_eq_iff model_kwargs_a_def)
  have call2: "make_request demo_client None False
                 ([] @ (''model'', JStr ''davinci'') # [(''prompt'', JStr ''Hello'')]) w1
               = (Returned (Some ok_body), w2)"
    using model_runs(2) by (simp add: w1_def w2_def prod_eq_iff model_kwargs_b_def)
  note r = caller_model_keyed_but_overwritten [OF v pre c call1 call2, simplified]
  have same: "build_request demo_client None False model_kwargs_a caching_world
                = build_request demo_client None False model_kwargs_b w1"
    unfolding model_kwargs_a_def model_kwargs_b_def by (rule r [THEN conjunct1])
  have bd: "body (build_request demo_client None False model_kwargs_a caching_world)
                = [(''model'', JStr (model_name demo_client)), (''prompt'', JStr ''Hello'')]"
    unfolding model_kwargs_a_def by (rule r [THEN conjunct2, THEN conjunct1])
  have ex: "\<exists>k1 k2 c2. orjson_dumps (JObj model_kwargs_a) = Inr k1 \<and>
               orjson_dumps (JObj model_kwargs_b) = Inr k2 \<and> k1 \<noteq> k2 \<and>
               cache w2 = Some c2 \<and> c2 k1 = Some ok_body \<and> c2 k2 = Some ok_body"
    unfolding model_kwargs_a_def model_kwargs_b_def
    using r [THEN conjunct2, THEN conjunct2, THEN conjunct2] by blast
  from ex obtain k1 k2 c2 where "k1 \<noteq> k2" "cache w2 = Some c2" "c2 k1 = Some ok_body"
    "c2 k2 = Some ok_body" by blast
  then have "\<exists>k1 k2 c2. k1 \<noteq> k2 \<and> cache w2 = Some c2 \<and> c2 k1 = Some ok_body \<and>
               c2 k2 = Some ok_body" by blast
  with same bd show ?thesis
    unfolding w1_def [symmetric] w2_def [symmetric] by (simp add: demo_client_def)
qed

end
